theory Spec2Isabelle
  imports Complex_Main "HOL-Library.Sublist" "HOL-Library.Multiset" "HOL-Library.AList"
begin

section \<open>Names, packets and node states (namespace.py)\<close>

text \<open>
  A name is the list of its components. The component type and its order are those of the
  external Name.Component class, so the tree is polymorphic in a linearly ordered type of
  components. A Data packet carries a name and a content.
\<close>

type_synonym 'c name = "'c list"

datatype ('c, 't) packet = Data (data_name: "'c name") (data_content: 't)

datatype NamespaceState =
    NAME_EXISTS
  | INTEREST_EXPRESSED
  | INTEREST_TIMEOUT
  | DATA_RECEIVED
  | DECRYPTING
  | DECRYPTION_ERROR
  | TRANSFORMING_CONTENT
  | CONTENT_READY
  | CONTENT_READY_BUT_STALE

text \<open>The integer of each state, as the class NamespaceState gives it.\<close>

fun stateValue :: "NamespaceState \<Rightarrow> nat" where
  "stateValue NAME_EXISTS = 0"
| "stateValue INTEREST_EXPRESSED = 1"
| "stateValue INTEREST_TIMEOUT = 2"
| "stateValue DATA_RECEIVED = 3"
| "stateValue DECRYPTING = 4"
| "stateValue DECRYPTION_ERROR = 5"
| "stateValue TRANSFORMING_CONTENT = 6"
| "stateValue CONTENT_READY = 7"
| "stateValue CONTENT_READY_BUT_STALE = 8"

datatype error = RuntimeError | KeyError | AttributeError | ValueError

text \<open>
  An onStateChanged callback is application code. Here a callback is described by what it
  does to the tree when it is called: it removes the listed callbacks (node, callback id)
  through removeCallback, and then it raises or returns.
\<close>

datatype 'c callback = Callback (removes: "('c list \<times> nat) list") (raises: bool)

text \<open>
  A Namespace node. The dictionaries _children and _onStateChangedCallbacks are association
  lists. The full name of a node is not stored: _createChild is the only place that makes
  a node below the root and gives it the name of its parent with the dictionary key
  appended, so the name of a node is the name of the root followed by the keys on the path
  from the root. The _parent reference is the path without its last key. The _face field
  is read by none of the operations below and is left out.
\<close>

datatype ('c, 't) namespace = Namespace
  (children: "('c \<times> ('c, 't) namespace) list")
  (sortedChildrenKeys: "'c list")
  (state: NamespaceState)
  (data: "('c, 't) packet option")
  (content: "'t option")
  (onStateChangedCallbacks: "(nat \<times> 'c callback) list")
  (transformContent: "(('c, 't) packet \<Rightarrow> 't option) option")

section \<open>Longest-prefix resolution\<close>

text \<open>
  The loop of _findBestMatchName over the keys in the order it visits them; f k is the
  result of the recursive call on the child with key k.
\<close>

fun bestMatchLoop ::
  "('c \<Rightarrow> error + 'c name option) \<Rightarrow> 'c list \<Rightarrow> 'c name option \<Rightarrow> error + 'c name option" where
  "bestMatchLoop f [] bestMatch = Inr bestMatch"
| "bestMatchLoop f (k # ks) bestMatch =
     (case f k of
        Inl e \<Rightarrow> Inl e
      | Inr childBestMatch \<Rightarrow>
          bestMatchLoop f ks
            (case childBestMatch of
               None \<Rightarrow> bestMatch
             | Some c \<Rightarrow>
                 (case bestMatch of
                    None \<Rightarrow> childBestMatch
                  | Some b \<Rightarrow> if length c \<ge> length b then childBestMatch else bestMatch)))"

lemma bestMatchLoop_cong [fundef_cong]:
  "ks = ks' \<Longrightarrow> b = b' \<Longrightarrow> (\<And>k. k \<in> set ks' \<Longrightarrow> f k = g k) \<Longrightarrow>
   bestMatchLoop f ks b = bestMatchLoop g ks' b'"
  by (induction ks' arbitrary: ks b b') (auto split: sum.splits)

lemma map_of_size_namespace:
  "map_of cs k = Some c \<Longrightarrow> size c < Suc (size_list (size_prod (\<lambda>_. 0) size) cs)"
  by (induction cs) (auto split: if_splits)

function findBestMatchName ::
  "(('c, 't) packet \<Rightarrow> bool) \<Rightarrow> 'c name \<Rightarrow> ('c, 't) namespace \<Rightarrow> error + 'c name option" where
  "findBestMatchName matchesData nm ns =
     (case bestMatchLoop
             (\<lambda>k. case map_of (children ns) k of
                    None \<Rightarrow> Inl KeyError
                  | Some child \<Rightarrow> findBestMatchName matchesData (nm @ [k]) child)
             (rev (sortedChildrenKeys ns)) None of
        Inl e \<Rightarrow> Inl e
      | Inr (Some bestMatch) \<Rightarrow> Inr (Some bestMatch)
      | Inr None \<Rightarrow>
          (case data ns of
             Some d \<Rightarrow> if matchesData d then Inr (Some nm) else Inr None
           | None \<Rightarrow> Inr None))"
  by pat_completeness auto
termination
proof (relation "measure (\<lambda>(m, nm, ns). size ns)")
  show "wf (measure (\<lambda>(m, nm, ns). size ns))" by simp
next
  fix matchesData :: "('c, 't) packet \<Rightarrow> bool" and nm :: "'c name"
    and ns :: "('c, 't) namespace" and k child
  assume "map_of (children ns) k = Some child"
  then have "size child < Suc (size_list (size_prod (\<lambda>_. 0) size) (children ns))"
    by (rule map_of_size_namespace)
  then show "((matchesData, nm @ [k], child), (matchesData, nm, ns))
      \<in> measure (\<lambda>(m, nm, ns). size ns)"
    by (cases ns) simp
qed

declare findBestMatchName.simps [simp del]

text \<open>
  The invariant that _createChild keeps: _sortedChildrenKeys is sorted, has no duplicates
  and holds exactly the keys of _children, in every node of the tree.
\<close>

fun wellFormed :: "('c::linorder, 't) namespace \<Rightarrow> bool" where
  "wellFormed (Namespace cs ks st d c cbs tc) =
     (sorted ks \<and> distinct ks \<and> set ks = fst ` set cs \<and> distinct (map fst cs) \<and>
      (\<forall>kc \<in> set cs. wellFormed (snd kc)))"

text \<open>The result of the recursive call of _findBestMatchName on the child with key k.\<close>

definition childBestMatch ::
  "(('c, 't) packet \<Rightarrow> bool) \<Rightarrow> 'c name \<Rightarrow> ('c, 't) namespace \<Rightarrow> 'c \<Rightarrow> error + 'c name option" where
  "childBestMatch matchesData nm ns k =
     (case map_of (children ns) k of
        None \<Rightarrow> Inl KeyError
      | Some child \<Rightarrow> findBestMatchName matchesData (nm @ [k]) child)"

subsection \<open>Longest-prefix resolution prefers children and the smallest component\<close>

lemma findBestMatchName_unfold:
  "findBestMatchName m nm ns =
     (case bestMatchLoop (childBestMatch m nm ns) (rev (sortedChildrenKeys ns)) None of
        Inl e \<Rightarrow> Inl e
      | Inr (Some bestMatch) \<Rightarrow> Inr (Some bestMatch)
      | Inr None \<Rightarrow>
          (case data ns of
             Some d \<Rightarrow> if m d then Inr (Some nm) else Inr None
           | None \<Rightarrow> Inr None))"
  unfolding childBestMatch_def by (subst findBestMatchName.simps) simp

lemma bestMatchLoop_keep:
  "\<forall>k \<in> set vs. \<exists>r. f k = Inr r \<and> (\<forall>c'. r = Some c' \<longrightarrow> length c' < length c) \<Longrightarrow>
   bestMatchLoop f vs (Some c) = Inr (Some c)"
  by (induction vs) (auto split: option.splits)

lemma bestMatchLoop_total:
  "\<forall>k \<in> set vs. \<exists>r. f k = Inr r \<Longrightarrow> \<exists>r. bestMatchLoop f vs b = Inr r"
  by (induction vs arbitrary: b) (auto split: option.splits)

lemma bestMatchLoop_pick:
  "sorted_wrt (\<lambda>a b. a > b) (vs :: 'c::linorder list) \<Longrightarrow> \<forall>k \<in> set vs. \<exists>r. f k = Inr r \<Longrightarrow>
   k \<in> set vs \<Longrightarrow> f k = Inr (Some c) \<Longrightarrow>
   (\<forall>k' \<in> set vs. \<forall>c'. f k' = Inr (Some c') \<longrightarrow>
        length c' < length c \<or> (length c' = length c \<and> k \<le> k')) \<Longrightarrow>
   (case b of None \<Rightarrow> True | Some x \<Rightarrow> length x \<le> length c) \<Longrightarrow>
   bestMatchLoop f vs b = Inr (Some c)"
proof (induction vs arbitrary: b)
  case Nil
  then show ?case by simp
next
  case (Cons v vs)
  show ?case
  proof (cases "k = v")
    case True
    have lower: "\<forall>k' \<in> set vs. k' < k" using Cons.prems(1) True by auto
    have "\<forall>k' \<in> set vs. \<exists>r. f k' = Inr r \<and> (\<forall>c'. r = Some c' \<longrightarrow> length c' < length c)"
    proof
      fix k' assume k': "k' \<in> set vs"
      then obtain r where r: "f k' = Inr r" using Cons.prems(2) by auto
      have "\<forall>c'. r = Some c' \<longrightarrow> length c' < length c"
      proof (intro allI impI)
        fix c' assume "r = Some c'"
        then have "f k' = Inr (Some c')" using r by simp
        moreover have "k' \<in> set (v # vs)" using k' by simp
        ultimately have "length c' < length c \<or> (length c' = length c \<and> k \<le> k')"
          using Cons.prems(5) by blast
        moreover have "k' < k" using lower k' by blast
        ultimately show "length c' < length c" by auto
      qed
      then show "\<exists>r. f k' = Inr r \<and> (\<forall>c'. r = Some c' \<longrightarrow> length c' < length c)"
        using r by blast
    qed
    then have "bestMatchLoop f vs (Some c) = Inr (Some c)" by (rule bestMatchLoop_keep)
    then show ?thesis using True Cons.prems(4,6) by (auto split: option.splits)
  next
    case False
    then have kin: "k \<in> set vs" using Cons.prems(3) by simp
    obtain r where r: "f v = Inr r" using Cons.prems(2) by auto
    let ?b' = "case r of None \<Rightarrow> b
               | Some c \<Rightarrow> (case b of None \<Rightarrow> r | Some x \<Rightarrow> if length c \<ge> length x then r else b)"
    have step: "bestMatchLoop f (v # vs) b = bestMatchLoop f vs ?b'" using r by simp
    have bound: "case ?b' of None \<Rightarrow> True | Some x \<Rightarrow> length x \<le> length c"
      using Cons.prems(5,6) r by (fastforce split: option.splits)
    have "bestMatchLoop f vs ?b' = Inr (Some c)"
      using Cons.IH[of ?b'] Cons.prems kin bound by auto
    then show ?thesis using step by simp
  qed
qed


lemma bestMatchLoop_from:
  "\<forall>k \<in> set vs. \<exists>r. f k = Inr r \<Longrightarrow> bestMatchLoop f vs b = Inr (Some c) \<Longrightarrow>
   b = Some c \<or> (\<exists>k \<in> set vs. f k = Inr (Some c))"
proof (induction vs arbitrary: b)
  case Nil then show ?case by simp
next
  case (Cons v vs)
  obtain r where r: "f v = Inr r" using Cons.prems(1) by auto
  let ?b' = "case r of None \<Rightarrow> b
             | Some c \<Rightarrow> (case b of None \<Rightarrow> r | Some x \<Rightarrow> if length c \<ge> length x then r else b)"
  have "bestMatchLoop f vs ?b' = Inr (Some c)" using Cons.prems(2) r by simp
  then have "?b' = Some c \<or> (\<exists>k \<in> set vs. f k = Inr (Some c))"
    using Cons.IH[of ?b'] Cons.prems(1) by simp
  moreover have "?b' = Some c \<Longrightarrow> b = Some c \<or> r = Some c"
    by (auto split: option.splits if_splits)
  ultimately show ?case using r by auto
qed

lemma bestMatchLoop_Some_start:
  "\<forall>k \<in> set vs. \<exists>r. f k = Inr r \<Longrightarrow> \<exists>c'. bestMatchLoop f vs (Some x) = Inr (Some c')"
proof (induction vs arbitrary: x)
  case Nil then show ?case by simp
next
  case (Cons v vs)
  obtain r where r: "f v = Inr r" using Cons.prems(1) by auto
  have ih: "\<And>y. \<exists>c'. bestMatchLoop f vs (Some y) = Inr (Some c')"
    using Cons.IH Cons.prems by simp
  show ?case using r ih by (cases r) auto
qed

lemma bestMatchLoop_some:
  "\<forall>k \<in> set vs. \<exists>r. f k = Inr r \<Longrightarrow> k \<in> set vs \<Longrightarrow> f k = Inr (Some c) \<Longrightarrow>
   \<exists>c'. bestMatchLoop f vs b = Inr (Some c')"
proof (induction vs arbitrary: b)
  case Nil then show ?case by simp
next
  case (Cons v vs)
  obtain r where r: "f v = Inr r" using Cons.prems(1) by auto
  have rest: "\<forall>k \<in> set vs. \<exists>r. f k = Inr r" using Cons.prems(1) by simp
  show ?case
  proof (cases r)
    case None
    then have "k \<in> set vs" using Cons.prems(2,3) r by auto
    then show ?thesis using Cons.IH[of b] rest Cons.prems(3) r None by simp
  next
    case (Some y)
    have ih: "\<And>z. \<exists>c'. bestMatchLoop f vs (Some z) = Inr (Some c')"
      using bestMatchLoop_Some_start[OF rest] by simp
    show ?thesis using r Some ih by (cases b) auto
  qed
qed

lemma wellFormed_child:
  "wellFormed ns \<Longrightarrow> map_of (children ns) k = Some child \<Longrightarrow> wellFormed child"
  by (cases ns) (auto dest: map_of_SomeD)

lemma wellFormed_key_child:
  "wellFormed ns \<Longrightarrow> k \<in> set (sortedChildrenKeys ns) \<Longrightarrow>
   \<exists>child. map_of (children ns) k = Some child"
  by (cases ns) (auto simp: map_of_eq_None_iff[symmetric] simp del: map_of_eq_None_iff)

lemma findBestMatchName_total:
  "wellFormed ns \<Longrightarrow> \<exists>r. findBestMatchName m nm ns = Inr r"
proof (induction m nm ns rule: findBestMatchName.induct)
  case (1 m nm ns)
  have "\<forall>k \<in> set (rev (sortedChildrenKeys ns)). \<exists>r. childBestMatch m nm ns k = Inr r"
  proof
    fix k assume kin: "k \<in> set (rev (sortedChildrenKeys ns))"
    then obtain child where c: "map_of (children ns) k = Some child"
      using wellFormed_key_child[OF "1.prems"] by auto
    have "\<exists>r. findBestMatchName m (nm @ [k]) child = Inr r"
      using "1.IH"[OF kin c wellFormed_child[OF "1.prems" c]] .
    then show "\<exists>r. childBestMatch m nm ns k = Inr r"
      using c by (simp add: childBestMatch_def)
  qed
  then obtain r where "bestMatchLoop (childBestMatch m nm ns) (rev (sortedChildrenKeys ns)) None = Inr r"
    using bestMatchLoop_total by blast
  then show ?case
    by (subst findBestMatchName_unfold) (simp split: option.splits)
qed

lemma childBestMatch_total:
  "wellFormed ns \<Longrightarrow> k \<in> set (sortedChildrenKeys ns) \<Longrightarrow>
   \<exists>r. childBestMatch m nm ns k = Inr r"
  using wellFormed_key_child[of ns k] wellFormed_child[of ns k] findBestMatchName_total
  by (fastforce simp: childBestMatch_def)

lemma findBestMatchName_prefix:
  "wellFormed ns \<Longrightarrow> findBestMatchName m nm ns = Inr (Some r) \<Longrightarrow> prefix nm r"
proof (induction m nm ns arbitrary: r rule: findBestMatchName.induct)
  case (1 m nm ns)
  let ?vs = "rev (sortedChildrenKeys ns)"
  have tot: "\<forall>k \<in> set ?vs. \<exists>r. childBestMatch m nm ns k = Inr r"
    using childBestMatch_total[OF "1.prems"(1)] by simp
  then obtain b where b: "bestMatchLoop (childBestMatch m nm ns) ?vs None = Inr b"
    using bestMatchLoop_total by blast
  show ?case
  proof (cases b)
    case None
    then have "r = nm" using "1.prems"(2) b
      by (subst (asm) findBestMatchName_unfold) (simp split: option.splits if_splits)
    then show ?thesis by simp
  next
    case (Some c)
    then have rc: "r = c" using "1.prems"(2) b
      by (subst (asm) findBestMatchName_unfold) simp
    obtain k where k: "k \<in> set ?vs" "childBestMatch m nm ns k = Inr (Some c)"
      using bestMatchLoop_from[OF tot, of None c] b Some by auto
    then obtain child where c: "map_of (children ns) k = Some child"
      using wellFormed_key_child[OF "1.prems"(1)] by auto
    then have "findBestMatchName m (nm @ [k]) child = Inr (Some c)"
      using k(2) by (simp add: childBestMatch_def)
    then have "prefix (nm @ [k]) c"
      using "1.IH"[OF k(1) c wellFormed_child[OF "1.prems"(1) c]] by blast
    then show ?thesis using rc by (auto simp: prefix_def)
  qed
qed

lemma childBestMatch_longer:
  assumes "wellFormed ns" and "childBestMatch m nm ns k = Inr (Some c)"
  shows "length nm < length c"
proof -
  obtain child where c: "map_of (children ns) k = Some child"
      and f: "findBestMatchName m (nm @ [k]) child = Inr (Some c)"
    using assms(2) by (auto simp: childBestMatch_def split: option.splits)
  have "prefix (nm @ [k]) c"
    using findBestMatchName_prefix[OF wellFormed_child[OF assms(1) c] f] .
  then show ?thesis by (auto simp: prefix_def)
qed

text \<open>
  Claim C1. In a tree that keeps the invariant of the sorted keys, when the child with key k
  yields a match c: the result of _findBestMatchName is the match of one of the children,
  and it is not the name of the node itself, whatever data the node holds; and when no
  child yields a longer match than c, and the children that yield a match as long as c
  have keys that are not smaller than k, the result is c.
\<close>

theorem findBestMatchName_prefers_children:
  assumes "wellFormed ns"
    and "k \<in> set (sortedChildrenKeys ns)"
    and "childBestMatch matchesData nm ns k = Inr (Some c)"
  shows "(\<exists>k' c'. k' \<in> set (sortedChildrenKeys ns) \<and>
            childBestMatch matchesData nm ns k' = Inr (Some c') \<and>
            findBestMatchName matchesData nm ns = Inr (Some c')) \<and>
         findBestMatchName matchesData nm ns \<noteq> Inr (Some nm) \<and>
         ((\<forall>k' \<in> set (sortedChildrenKeys ns). \<forall>c'.
              childBestMatch matchesData nm ns k' = Inr (Some c') \<longrightarrow>
              length c' < length c \<or> (length c' = length c \<and> k \<le> k')) \<longrightarrow>
          findBestMatchName matchesData nm ns = Inr (Some c))"
proof -
  let ?f = "childBestMatch matchesData nm ns"
  let ?vs = "rev (sortedChildrenKeys ns)"
  have tot: "\<forall>k \<in> set ?vs. \<exists>r. ?f k = Inr r"
    using childBestMatch_total[OF assms(1)] by simp
  have kin: "k \<in> set ?vs" using assms(2) by simp
  obtain b where b: "bestMatchLoop ?f ?vs None = Inr (Some b)"
    using bestMatchLoop_some[OF tot kin assms(3)] by blast
  then have res: "findBestMatchName matchesData nm ns = Inr (Some b)"
    by (subst findBestMatchName_unfold) simp
  obtain k' where k': "k' \<in> set ?vs" "?f k' = Inr (Some b)"
    using bestMatchLoop_from[OF tot b] by auto
  have first: "\<exists>k' c'. k' \<in> set (sortedChildrenKeys ns) \<and> ?f k' = Inr (Some c') \<and>
      findBestMatchName matchesData nm ns = Inr (Some c')"
    using k' res by auto
  have "length nm < length b" using childBestMatch_longer[OF assms(1) k'(2)] .
  then have second: "findBestMatchName matchesData nm ns \<noteq> Inr (Some nm)"
    using res by auto
  have sorted_desc: "sorted_wrt (\<lambda>a b. a > b) ?vs"
    using assms(1) by (cases ns) (simp add: sorted_wrt_rev strict_sorted_iff)
  have third: "(\<forall>k' \<in> set (sortedChildrenKeys ns). \<forall>c'.
              ?f k' = Inr (Some c') \<longrightarrow>
              length c' < length c \<or> (length c' = length c \<and> k \<le> k')) \<longrightarrow>
          findBestMatchName matchesData nm ns = Inr (Some c)"
  proof
    assume h: "\<forall>k' \<in> set (sortedChildrenKeys ns). \<forall>c'.
              ?f k' = Inr (Some c') \<longrightarrow>
              length c' < length c \<or> (length c' = length c \<and> k \<le> k')"
    then have h': "\<forall>k' \<in> set ?vs. \<forall>c'.
              ?f k' = Inr (Some c') \<longrightarrow>
              length c' < length c \<or> (length c' = length c \<and> k \<le> k')" by simp
    have "bestMatchLoop ?f ?vs None = Inr (Some c)"
      using bestMatchLoop_pick[OF sorted_desc tot kin assms(3) h'] by simp
    then show "findBestMatchName matchesData nm ns = Inr (Some c)"
      by (subst findBestMatchName_unfold) simp
  qed
  show ?thesis using first second third by blast
qed

definition siblings :: "(nat, string) namespace" where
  "siblings = Namespace
     [(2, Namespace [] [] CONTENT_READY (Some (Data [0, 2] ''c'')) (Some ''c'') [] None),
      (1, Namespace [] [] CONTENT_READY (Some (Data [0, 1] ''b'')) (Some ''b'') [] None)]
     [1, 2] CONTENT_READY (Some (Data [0] ''a'')) (Some ''a'') [] None"

theorem findBestMatchName_prefers_children_witness:
  "wellFormed siblings \<and>
   findBestMatchName (\<lambda>d. True) [0] siblings = Inr (Some [0, 1]) \<and>
   findBestMatchName (\<lambda>d. True) [0] siblings \<noteq> Inr (Some [0])"
proof -
  have wf: "wellFormed siblings" by (auto simp: siblings_def)
  have k: "1 \<in> set (sortedChildrenKeys siblings)" by (simp add: siblings_def)
  have c: "childBestMatch (\<lambda>d. True) [0] siblings 1 = Inr (Some [0, 1])"
    by (simp add: siblings_def childBestMatch_def findBestMatchName.simps)
  have least: "\<forall>k' \<in> set (sortedChildrenKeys siblings). \<forall>c'.
      childBestMatch (\<lambda>d. True) [0] siblings k' = Inr (Some c') \<longrightarrow>
      length c' < length [0, 1::nat] \<or> (length c' = length [0, 1::nat] \<and> 1 \<le> k')"
    by (auto simp: siblings_def childBestMatch_def findBestMatchName.simps)
  note th = findBestMatchName_prefers_children[OF wf k c]
  from th least have "findBestMatchName (\<lambda>d. True) [0] siblings = Inr (Some [0, 1])"
    by blast
  moreover from th have "findBestMatchName (\<lambda>d. True) [0] siblings \<noteq> Inr (Some [0])"
    by blast
  ultimately show ?thesis using wf by blast
qed

section \<open>The tree and its nodes\<close>

text \<open>
  A Namespace object is addressed by the path of keys from the root. The tree record holds
  the root node and its name, and three records of what the operations do: the callback
  calls made (observer's node, changed node, state, callback id), the assignments to _state
  (node, state), and the number of exceptions passed to logging.exception. The operations
  are methods of a Namespace object, so they are meant for a path that addresses a node;
  for another path the readers below find nothing and the assignments change nothing.
\<close>

type_synonym 'c path = "'c list"

record ('c, 't) tree =
  rootName :: "'c name"
  root :: "('c, 't) namespace"
  calls :: "('c path \<times> 'c path \<times> NamespaceState \<times> nat) list"
  transitions :: "('c path \<times> NamespaceState) list"
  logged :: nat

fun getNode :: "('c, 't) namespace \<Rightarrow> 'c path \<Rightarrow> ('c, 't) namespace option" where
  "getNode ns [] = Some ns"
| "getNode ns (k # p) =
     (case map_of (children ns) k of None \<Rightarrow> None | Some child \<Rightarrow> getNode child p)"

primrec with_children ::
  "('c \<times> ('c, 't) namespace) list \<Rightarrow> ('c, 't) namespace \<Rightarrow> ('c, 't) namespace" where
  "with_children cs' (Namespace cs ks st d c cbs tc) = Namespace cs' ks st d c cbs tc"

primrec with_sortedChildrenKeys :: "'c list \<Rightarrow> ('c, 't) namespace \<Rightarrow> ('c, 't) namespace" where
  "with_sortedChildrenKeys ks' (Namespace cs ks st d c cbs tc) = Namespace cs ks' st d c cbs tc"

primrec with_state :: "NamespaceState \<Rightarrow> ('c, 't) namespace \<Rightarrow> ('c, 't) namespace" where
  "with_state st' (Namespace cs ks st d c cbs tc) = Namespace cs ks st' d c cbs tc"

primrec with_data :: "('c, 't) packet option \<Rightarrow> ('c, 't) namespace \<Rightarrow> ('c, 't) namespace" where
  "with_data d' (Namespace cs ks st d c cbs tc) = Namespace cs ks st d' c cbs tc"

primrec with_content :: "'t option \<Rightarrow> ('c, 't) namespace \<Rightarrow> ('c, 't) namespace" where
  "with_content c' (Namespace cs ks st d c cbs tc) = Namespace cs ks st d c' cbs tc"

primrec with_callbacks ::
  "(nat \<times> 'c callback) list \<Rightarrow> ('c, 't) namespace \<Rightarrow> ('c, 't) namespace" where
  "with_callbacks cbs' (Namespace cs ks st d c cbs tc) = Namespace cs ks st d c cbs' tc"

text \<open>Assign to the object at path p: f is the assignment.\<close>

fun updNode ::
  "'c path \<Rightarrow> (('c, 't) namespace \<Rightarrow> ('c, 't) namespace) \<Rightarrow> ('c, 't) namespace \<Rightarrow> ('c, 't) namespace" where
  "updNode [] f ns = f ns"
| "updNode (k # p) f ns =
     (case map_of (children ns) k of
        None \<Rightarrow> ns
      | Some child \<Rightarrow> with_children (AList.update k (updNode p f child) (children ns)) ns)"

text \<open>The constructor Namespace(name): a root with no children, data or callbacks.\<close>

definition newTree :: "'c name \<Rightarrow> ('c, 't) tree" where
  "newTree nm =
     \<lparr>rootName = nm, root = Namespace [] [] NAME_EXISTS None None [] None,
      calls = [], transitions = [], logged = 0\<rparr>"

definition nameOf :: "('c, 't) tree \<Rightarrow> 'c path \<Rightarrow> 'c name" where
  "nameOf w p = rootName w @ p"

definition callbacksAt :: "('c, 't) tree \<Rightarrow> 'c path \<Rightarrow> (nat \<times> 'c callback) list" where
  "callbacksAt w p =
     (case getNode (root w) p of None \<Rightarrow> [] | Some ns \<Rightarrow> onStateChangedCallbacks ns)"

section \<open>State changes and their callbacks\<close>

text \<open>removeCallback: self._onStateChangedCallbacks.pop(callbackId, None).\<close>

definition removeCallback :: "('c, 't) tree \<Rightarrow> 'c path \<Rightarrow> nat \<Rightarrow> ('c, 't) tree" where
  "removeCallback w p callbackId =
     w\<lparr>root := updNode p
        (\<lambda>self. with_callbacks
           (filter (\<lambda>(i, cb). i \<noteq> callbackId) (onStateChangedCallbacks self)) self)
        (root w)\<rparr>"

text \<open>
  One call of a callback inside the try of _fireOnStateChanged: the call is recorded, the
  callback does its removals, and an exception it raises is logged.
\<close>

definition invoke ::
  "('c, 't) tree \<Rightarrow> 'c path \<Rightarrow> 'c path \<Rightarrow> NamespaceState \<Rightarrow> nat \<Rightarrow> 'c callback \<Rightarrow> ('c, 't) tree" where
  "invoke w p changedNamespace st callbackId cb =
     (let w1 = w\<lparr>calls := calls w @ [(p, changedNamespace, st, callbackId)]\<rparr>;
          w2 = fold (\<lambda>(q, j) w'. removeCallback w' q j) (removes cb) w1
      in if raises cb then w2\<lparr>logged := logged w2 + 1\<rparr> else w2)"

text \<open>The loop of _fireOnStateChanged over the copied list of keys.\<close>

fun fireLoop ::
  "('c, 't) tree \<Rightarrow> 'c path \<Rightarrow> 'c path \<Rightarrow> NamespaceState \<Rightarrow> nat list \<Rightarrow> ('c, 't) tree" where
  "fireLoop w p changedNamespace st [] = w"
| "fireLoop w p changedNamespace st (i # ids) =
     (case map_of (callbacksAt w p) i of
        None \<Rightarrow> fireLoop w p changedNamespace st ids
      | Some cb \<Rightarrow> fireLoop (invoke w p changedNamespace st i cb) p changedNamespace st ids)"

definition fireOnStateChanged ::
  "('c, 't) tree \<Rightarrow> 'c path \<Rightarrow> 'c path \<Rightarrow> NamespaceState \<Rightarrow> ('c, 't) tree" where
  "fireOnStateChanged w p changedNamespace st =
     fireLoop w p changedNamespace st (map fst (callbacksAt w p))"

text \<open>
  The while loop of _setState: fire at the node, then at its parent, up to the root, whose
  path is empty and which has no parent.
\<close>

function fireUpwards ::
  "('c, 't) tree \<Rightarrow> 'c path \<Rightarrow> 'c path \<Rightarrow> NamespaceState \<Rightarrow> ('c, 't) tree" where
  "fireUpwards w p changedNamespace st =
     (let w' = fireOnStateChanged w p changedNamespace st
      in if p = [] then w' else fireUpwards w' (butlast p) changedNamespace st)"
  by pat_completeness auto
termination
  by (relation "measure (\<lambda>(w, p, c, st). length p)") auto

declare fireUpwards.simps [simp del]

definition setState :: "('c, 't) tree \<Rightarrow> 'c path \<Rightarrow> NamespaceState \<Rightarrow> ('c, 't) tree" where
  "setState w p st =
     fireUpwards
       (w\<lparr>root := updNode p (with_state st) (root w),
          transitions := transitions w @ [(p, st)]\<rparr>)
       p p st"

lemma rootName_removeCallback: "rootName (removeCallback w q j) = rootName w"
  by (simp add: removeCallback_def)

lemma rootName_removals:
  "rootName (fold (\<lambda>(q, j) w'. removeCallback w' q j) rs w) = rootName w"
  by (induction rs arbitrary: w) (auto simp: rootName_removeCallback)

lemma rootName_invoke: "rootName (invoke w p c st i cb) = rootName w"
  by (simp add: invoke_def Let_def rootName_removals)

lemma rootName_fireLoop: "rootName (fireLoop w p c st ids) = rootName w"
  by (induction w p c st ids rule: fireLoop.induct)
     (auto simp: rootName_invoke split: option.splits)

lemma rootName_fireUpwards: "rootName (fireUpwards w p c st) = rootName w"
proof (induction w p c st rule: fireUpwards.induct)
  case (1 w p c st)
  show ?case
    using "1.IH"[OF refl]
    by (subst fireUpwards.simps)
       (simp add: Let_def fireOnStateChanged_def rootName_fireLoop)
qed

lemma rootName_setState: "rootName (setState w p st) = rootName w"
  by (simp add: setState_def rootName_fireUpwards)

section \<open>Creating and finding children\<close>

text \<open>component in self._children, for the node at path p.\<close>

definition hasChildAt :: "('c, 't) tree \<Rightarrow> 'c path \<Rightarrow> 'c \<Rightarrow> bool" where
  "hasChildAt w p component =
     (case getNode (root w) p of
        None \<Rightarrow> False
      | Some ns \<Rightarrow> map_of (children ns) component \<noteq> None)"

text \<open>
  The two assignments of _createChild to the node itself: the new child, a node as the
  constructor makes it, is stored under its component, and the component is inserted into
  the sorted keys.
\<close>

definition addChild :: "'c::linorder \<Rightarrow> ('c, 't) namespace \<Rightarrow> ('c, 't) namespace" where
  "addChild component self =
     with_sortedChildrenKeys (insort component (sortedChildrenKeys self))
       (with_children
          (AList.update component (Namespace [] [] NAME_EXISTS None None [] None)
             (children self))
          self)"

text \<open>
  _createChild on the node at path p. The new child is the node at path p @ [component];
  the callbacks are fired by _setState on the node at p itself, as the source does.
\<close>

definition createChild ::
  "('c::linorder, 't) tree \<Rightarrow> 'c path \<Rightarrow> 'c \<Rightarrow> bool \<Rightarrow> ('c, 't) tree" where
  "createChild w p component fireCallbacks =
     (let w1 = w\<lparr>root := updNode p (addChild component) (root w)\<rparr>
      in if fireCallbacks then setState w1 p NAME_EXISTS else w1)"

lemma rootName_createChild: "rootName (createChild w p k fire) = rootName w"
  by (simp add: createChild_def Let_def rootName_setState)

datatype 'c nameOrComponent = AName "'c name" | AComponent 'c

text \<open>
  The while loop of getChild; q is the path of descendantNamespace. Inside the loop
  descendantName has at least one component, so the subtraction in isLeaf is exact.
\<close>

function getChildLoop ::
  "('c::linorder, 't) tree \<Rightarrow> 'c path \<Rightarrow> 'c name \<Rightarrow> ('c, 't) tree \<times> 'c path" where
  "getChildLoop w q descendantName =
     (if length (nameOf w q) < length descendantName then
        let nextComponent = descendantName ! length (nameOf w q) in
        if hasChildAt w q nextComponent then
          getChildLoop w (q @ [nextComponent]) descendantName
        else
          let isLeaf = (length (nameOf w q) = length descendantName - 1) in
          getChildLoop (createChild w q nextComponent isLeaf) (q @ [nextComponent])
            descendantName
      else (w, q))"
  by pat_completeness auto
termination
  by (relation "measure (\<lambda>(w, q, d). length d - length (nameOf w q))")
     (auto simp: nameOf_def rootName_createChild)

declare getChildLoop.simps [simp del]

text \<open>
  getChild on the node at path p. The result is the tree after the call, and the error
  raised or the path of the node returned.
\<close>

fun getChild ::
  "('c::linorder, 't) tree \<Rightarrow> 'c path \<Rightarrow> 'c nameOrComponent \<Rightarrow> ('c, 't) tree \<times> (error + 'c path)" where
  "getChild w p (AName descendantName) =
     (if \<not> prefix (nameOf w p) descendantName then (w, Inl RuntimeError)
      else (case getChildLoop w p descendantName of (w', q) \<Rightarrow> (w', Inr q)))"
| "getChild w p (AComponent component) =
     (if hasChildAt w p component then (w, Inr (p @ [component]))
      else (createChild w p component True, Inr (p @ [component])))"



section \<open>Attaching a Data packet\<close>

definition nodeExists :: "('c, 't) tree \<Rightarrow> 'c path \<Rightarrow> bool" where
  "nodeExists w p = (getNode (root w) p \<noteq> None)"

definition dataAt :: "('c, 't) tree \<Rightarrow> 'c path \<Rightarrow> ('c, 't) packet option" where
  "dataAt w p = (case getNode (root w) p of None \<Rightarrow> None | Some ns \<Rightarrow> data ns)"

definition contentAt :: "('c, 't) tree \<Rightarrow> 'c path \<Rightarrow> 't option" where
  "contentAt w p = (case getNode (root w) p of None \<Rightarrow> None | Some ns \<Rightarrow> content ns)"

definition stateAt :: "('c, 't) tree \<Rightarrow> 'c path \<Rightarrow> NamespaceState option" where
  "stateAt w p = map_option state (getNode (root w) p)"

definition transformContentAt ::
  "('c, 't) tree \<Rightarrow> 'c path \<Rightarrow> (('c, 't) packet \<Rightarrow> 't option) option" where
  "transformContentAt w p =
     (case getNode (root w) p of None \<Rightarrow> None | Some ns \<Rightarrow> transformContent ns)"

text \<open>
  _getTransformContent: the hook of the node or of its nearest ancestor that has one. A hook
  is given by what it does with the packet: Some c when it calls onContentTransformed with
  c before it returns, None when it does not call it before it returns.
\<close>

function getTransformContent ::
  "('c, 't) tree \<Rightarrow> 'c path \<Rightarrow> (('c, 't) packet \<Rightarrow> 't option) option" where
  "getTransformContent w p =
     (case transformContentAt w p of
        Some tc \<Rightarrow> Some tc
      | None \<Rightarrow> if p = [] then None else getTransformContent w (butlast p))"
  by pat_completeness auto
termination
  by (relation "measure (\<lambda>(w, p). length p)") auto

declare getTransformContent.simps [simp del]

definition onContentTransformed :: "('c, 't) tree \<Rightarrow> 'c path \<Rightarrow> 't \<Rightarrow> ('c, 't) tree" where
  "onContentTransformed w p c =
     setState (w\<lparr>root := updNode p (with_content (Some c)) (root w)\<rparr>) p CONTENT_READY"

text \<open>
  setData on the node at path p: the exception raised, if any, and the tree after the call.
\<close>

definition setData ::
  "('c, 't) tree \<Rightarrow> 'c path \<Rightarrow> ('c, 't) packet \<Rightarrow> error option \<times> ('c, 't) tree" where
  "setData w p d =
     (if dataAt w p \<noteq> None then (None, w)
      else if data_name d \<noteq> nameOf w p then (Some RuntimeError, w)
      else
        let w1 = w\<lparr>root := updNode p (with_data (Some d)) (root w)\<rparr>;
            w2 = setState w1 p DATA_RECEIVED
        in (None,
            case getTransformContent w2 p of
              Some tc \<Rightarrow> (case tc d of Some c \<Rightarrow> onContentTransformed w2 p c | None \<Rightarrow> w2)
            | None \<Rightarrow> onContentTransformed w2 p (data_content d)))"

section \<open>Reading the tree after an assignment\<close>

lemma with_children_sel [simp]:
  "children (with_children cs n) = cs"
  "sortedChildrenKeys (with_children cs n) = sortedChildrenKeys n"
  "state (with_children cs n) = state n"
  "data (with_children cs n) = data n"
  "content (with_children cs n) = content n"
  "onStateChangedCallbacks (with_children cs n) = onStateChangedCallbacks n"
  "transformContent (with_children cs n) = transformContent n"
  by (cases n; simp)+

lemma with_sortedChildrenKeys_sel [simp]:
  "children (with_sortedChildrenKeys ks n) = children n"
  "sortedChildrenKeys (with_sortedChildrenKeys ks n) = ks"
  "state (with_sortedChildrenKeys ks n) = state n"
  "data (with_sortedChildrenKeys ks n) = data n"
  "content (with_sortedChildrenKeys ks n) = content n"
  "onStateChangedCallbacks (with_sortedChildrenKeys ks n) = onStateChangedCallbacks n"
  "transformContent (with_sortedChildrenKeys ks n) = transformContent n"
  by (cases n; simp)+

lemma with_state_sel [simp]:
  "children (with_state s n) = children n"
  "sortedChildrenKeys (with_state s n) = sortedChildrenKeys n"
  "state (with_state s n) = s"
  "data (with_state s n) = data n"
  "content (with_state s n) = content n"
  "onStateChangedCallbacks (with_state s n) = onStateChangedCallbacks n"
  "transformContent (with_state s n) = transformContent n"
  by (cases n; simp)+

lemma with_data_sel [simp]:
  "children (with_data d n) = children n"
  "sortedChildrenKeys (with_data d n) = sortedChildrenKeys n"
  "state (with_data d n) = state n"
  "data (with_data d n) = d"
  "content (with_data d n) = content n"
  "onStateChangedCallbacks (with_data d n) = onStateChangedCallbacks n"
  "transformContent (with_data d n) = transformContent n"
  by (cases n; simp)+

lemma with_content_sel [simp]:
  "children (with_content c n) = children n"
  "sortedChildrenKeys (with_content c n) = sortedChildrenKeys n"
  "state (with_content c n) = state n"
  "data (with_content c n) = data n"
  "content (with_content c n) = c"
  "onStateChangedCallbacks (with_content c n) = onStateChangedCallbacks n"
  "transformContent (with_content c n) = transformContent n"
  by (cases n; simp)+

lemma with_callbacks_sel [simp]:
  "children (with_callbacks cbs n) = children n"
  "sortedChildrenKeys (with_callbacks cbs n) = sortedChildrenKeys n"
  "state (with_callbacks cbs n) = state n"
  "data (with_callbacks cbs n) = data n"
  "content (with_callbacks cbs n) = content n"
  "onStateChangedCallbacks (with_callbacks cbs n) = cbs"
  "transformContent (with_callbacks cbs n) = transformContent n"
  by (cases n; simp)+

lemma getNode_append:
  "getNode t (q @ r) = (case getNode t q of None \<Rightarrow> None | Some n \<Rightarrow> getNode n r)"
  by (induction q arbitrary: t) (auto split: option.splits)

lemma getNode_children_only:
  "children n' = children n \<Longrightarrow> r \<noteq> [] \<Longrightarrow> getNode n' r = getNode n r"
  by (cases r) auto

text \<open>A field g of a node that is not its dictionary of children, read after an
  assignment f to the node at path q.\<close>

lemma getNode_updNode:
  assumes loc: "\<And>cs n. g (with_children cs n) = g n"
  shows "map_option g (getNode (updNode q f t) a) =
     (case getNode t q of
        None \<Rightarrow> map_option g (getNode t a)
      | Some n \<Rightarrow>
          if prefix q a then map_option g (getNode (f n) (drop (length q) a))
          else map_option g (getNode t a))"
proof (induction q arbitrary: t a)
  case Nil
  then show ?case by simp
next
  case (Cons k q)
  show ?case
  proof (cases "map_of (children t) k")
    case None
    then show ?thesis by simp
  next
    case (Some child)
    show ?thesis
    proof (cases a)
      case Nil
      then show ?thesis using Some loc by (simp split: option.splits)
    next
      case (Cons k2 a')
      show ?thesis
      proof (cases "k2 = k")
        case True
        then show ?thesis using Some Cons Cons.IH[of child a']
          by (simp add: update_conv' split: option.splits)
      next
        case False
        then show ?thesis using Some Cons
          by (simp add: update_conv' split: option.splits)
      qed
    qed
  qed
qed

lemma getNode_updNode_same:
  assumes loc: "\<And>cs n. g (with_children cs n) = g n"
    and same: "\<And>n. children (f n) = children n"
  shows "map_option g (getNode (updNode q f t) a) =
     (if a = q then map_option (\<lambda>n. g (f n)) (getNode t a) else map_option g (getNode t a))"
proof (cases "getNode t q")
  case None
  then show ?thesis using getNode_updNode[of g q f t a, OF loc] by simp
next
  case (Some n)
  show ?thesis
  proof (cases "prefix q a")
    case False
    then have "a \<noteq> q" by auto
    then show ?thesis using getNode_updNode[of g q f t a, OF loc] Some False by simp
  next
    case True
    then obtain r where r: "a = q @ r" by (auto simp: prefix_def)
    show ?thesis
    proof (cases "r = []")
      case True
      then show ?thesis using getNode_updNode[of g q f t a, OF loc] Some r by simp
    next
      case False
      have "getNode (f n) r = getNode n r"
        using getNode_children_only[OF same False] .
      moreover have "getNode t a = getNode n r" using r Some by (simp add: getNode_append)
      ultimately show ?thesis
        using getNode_updNode[of g q f t a, OF loc] Some r False by simp
    qed
  qed
qed

definition fieldAt :: "(('c, 't) namespace \<Rightarrow> 'a) \<Rightarrow> ('c, 't) tree \<Rightarrow> 'c path \<Rightarrow> 'a option" where
  "fieldAt g w p = map_option g (getNode (root w) p)"

lemma dataAt_fieldAt: "dataAt w p = (case fieldAt data w p of None \<Rightarrow> None | Some d \<Rightarrow> d)"
  by (simp add: dataAt_def fieldAt_def split: option.splits)

lemma contentAt_fieldAt:
  "contentAt w p = (case fieldAt content w p of None \<Rightarrow> None | Some d \<Rightarrow> d)"
  by (simp add: contentAt_def fieldAt_def split: option.splits)

lemma transformContentAt_fieldAt:
  "transformContentAt w p =
     (case fieldAt transformContent w p of None \<Rightarrow> None | Some d \<Rightarrow> d)"
  by (simp add: transformContentAt_def fieldAt_def split: option.splits)

lemma stateAt_fieldAt: "stateAt w p = fieldAt state w p"
  by (simp add: stateAt_def fieldAt_def)

lemma callbacksAt_fieldAt:
  "callbacksAt w p =
     (case fieldAt onStateChangedCallbacks w p of None \<Rightarrow> [] | Some d \<Rightarrow> d)"
  by (simp add: callbacksAt_def fieldAt_def split: option.splits)

lemma hasChildAt_fieldAt: "hasChildAt w p k = (fieldAt (\<lambda>n. ()) w (p @ [k]) \<noteq> None)"
  by (simp add: hasChildAt_def fieldAt_def getNode_append split: option.splits)

text \<open>Fields that the callbacks cannot change.\<close>

definition stable :: "(('c, 't) namespace \<Rightarrow> 'a) \<Rightarrow> bool" where
  "stable g = ((\<forall>cs n. g (with_children cs n) = g n) \<and> (\<forall>cbs n. g (with_callbacks cbs n) = g n))"

lemma stable_fields:
  "stable state" "stable data" "stable content" "stable transformContent"
  "stable (\<lambda>n. ())" "stable sortedChildrenKeys"
  by (simp_all add: stable_def)

lemma fieldAt_removeCallback:
  "stable g \<Longrightarrow> fieldAt g (removeCallback w q j) a = fieldAt g w a"
  unfolding fieldAt_def removeCallback_def
  by (simp add: getNode_updNode_same stable_def)

lemma map_of_filter_key:
  "map_of (filter (\<lambda>(i, cb). i \<noteq> j) xs) i = (if i = j then None else map_of xs i)"
  by (induction xs) auto

lemma callbacksAt_removeCallback:
  "callbacksAt (removeCallback w q j) a =
     (if a = q then filter (\<lambda>(i, cb). i \<noteq> j) (callbacksAt w a) else callbacksAt w a)"
  unfolding callbacksAt_fieldAt fieldAt_def removeCallback_def
  by (simp add: getNode_updNode_same split: option.splits)

lemma fieldAt_removals:
  "stable g \<Longrightarrow>
   fieldAt g (fold (\<lambda>(q, j) w'. removeCallback w' q j) rs w) a = fieldAt g w a"
  by (induction rs arbitrary: w) (auto simp: fieldAt_removeCallback)

lemma fieldAt_invoke: "stable g \<Longrightarrow> fieldAt g (invoke w p c st i cb) a = fieldAt g w a"
proof -
  have upd: "\<And>w' f. fieldAt g (w'\<lparr>logged := f\<rparr>) a = fieldAt g w' a"
    "\<And>w' f. fieldAt g (w'\<lparr>calls := f\<rparr>) a = fieldAt g w' a"
    by (simp_all add: fieldAt_def)
  assume "stable g"
  then show ?thesis by (simp add: invoke_def Let_def upd fieldAt_removals)
qed

lemma fieldAt_fireLoop: "stable g \<Longrightarrow> fieldAt g (fireLoop w p c st ids) a = fieldAt g w a"
  by (induction w p c st ids rule: fireLoop.induct)
     (auto simp: fieldAt_invoke split: option.splits)

lemma fieldAt_fireUpwards:
  "stable g \<Longrightarrow> fieldAt g (fireUpwards w p c st) a = fieldAt g w a"
proof (induction w p c st rule: fireUpwards.induct)
  case (1 w p c st)
  show ?case
    using "1.IH"[OF refl] "1.prems"
    by (subst fireUpwards.simps)
       (simp add: Let_def fireOnStateChanged_def fieldAt_fireLoop)
qed

lemma fieldAt_setState_other:
  "stable g \<Longrightarrow> (\<And>s n. g (with_state s n) = g n) \<Longrightarrow>
   fieldAt g (setState w p st) a = fieldAt g w a"
  unfolding setState_def
  by (simp add: fieldAt_fireUpwards) (simp add: fieldAt_def getNode_updNode_same stable_def)

lemma stateAt_setState:
  "stateAt (setState w p st) a = (if a = p then map_option (\<lambda>s. st) (stateAt w a) else stateAt w a)"
  unfolding setState_def stateAt_fieldAt
  by (simp add: fieldAt_fireUpwards stable_fields)
     (simp add: fieldAt_def getNode_updNode_same option.map_comp comp_def)

section \<open>The dispatch of callbacks as a sequence of visits\<close>

text \<open>
  registered w p i is the callback with id i in _onStateChangedCallbacks of the node at p.
  A visit is one pass of the loop body of _fireOnStateChanged: the test that the id is
  still in the dictionary, and the call.
\<close>

definition registered :: "('c, 't) tree \<Rightarrow> 'c path \<Rightarrow> nat \<Rightarrow> 'c callback option" where
  "registered w p i = map_of (callbacksAt w p) i"

definition visit ::
  "'c path \<Rightarrow> NamespaceState \<Rightarrow> ('c, 't) tree \<Rightarrow> 'c path \<times> nat \<Rightarrow> ('c, 't) tree" where
  "visit c st w oi =
     (case registered w (fst oi) (snd oi) of
        None \<Rightarrow> w
      | Some cb \<Rightarrow> invoke w (fst oi) c st (snd oi) cb)"

definition visits ::
  "'c path \<Rightarrow> NamespaceState \<Rightarrow> ('c path \<times> nat) list \<Rightarrow> ('c, 't) tree \<Rightarrow> ('c, 't) tree" where
  "visits c st L w = fold (\<lambda>oi w'. visit c st w' oi) L w"

lemma visits_Nil [simp]: "visits c st [] w = w"
  by (simp add: visits_def)

lemma visits_Cons [simp]: "visits c st (oi # L) w = visits c st L (visit c st w oi)"
  by (simp add: visits_def)

lemma visits_append: "visits c st (L @ L') w = visits c st L' (visits c st L w)"
  by (simp add: visits_def)

lemma fireLoop_visits: "fireLoop w p c st ids = visits c st (map (Pair p) ids) w"
  by (induction w p c st ids rule: fireLoop.induct)
     (auto simp: visit_def registered_def split: option.splits)

lemma registered_removeCallback:
  "registered (removeCallback w q j) o' i = (if (o', i) = (q, j) then None else registered w o' i)"
  by (auto simp: registered_def callbacksAt_removeCallback map_of_filter_key)

lemma registered_removals:
  "registered (fold (\<lambda>(q, j) w'. removeCallback w' q j) rs w) o' i =
     (if (o', i) \<in> set rs then None else registered w o' i)"
proof (induction rs arbitrary: w)
  case Nil
  then show ?case by simp
next
  case (Cons r rs)
  obtain q j where r: "r = (q, j)" by (cases r)
  show ?case using Cons.IH[of "removeCallback w q j"] r
    by (auto simp: registered_removeCallback)
qed

lemma registered_calls_update [simp]:
  "registered (w\<lparr>calls := x\<rparr>) o' i = registered w o' i"
  "registered (w\<lparr>logged := y\<rparr>) o' i = registered w o' i"
  "registered (w\<lparr>transitions := z\<rparr>) o' i = registered w o' i"
  by (simp_all add: registered_def callbacksAt_def)

lemma registered_invoke:
  "registered (invoke w p c st j cb) o' i =
     (if (o', i) \<in> set (removes cb) then None else registered w o' i)"
  by (simp add: invoke_def Let_def registered_removals)

lemma calls_removals:
  "calls (fold (\<lambda>(q, j) w'. removeCallback w' q j) rs w) = calls w"
  by (induction rs arbitrary: w) (auto simp: removeCallback_def)

lemma transitions_removals:
  "transitions (fold (\<lambda>(q, j) w'. removeCallback w' q j) rs w) = transitions w"
  by (induction rs arbitrary: w) (auto simp: removeCallback_def)

lemma logged_removals:
  "logged (fold (\<lambda>(q, j) w'. removeCallback w' q j) rs w) = logged w"
  by (induction rs arbitrary: w) (auto simp: removeCallback_def)

lemma calls_invoke: "calls (invoke w p c st j cb) = calls w @ [(p, c, st, j)]"
  by (simp add: invoke_def Let_def calls_removals)

lemma transitions_invoke: "transitions (invoke w p c st j cb) = transitions w"
  by (simp add: invoke_def Let_def transitions_removals)

lemma logged_invoke:
  "logged (invoke w p c st j cb) = logged w + (if raises cb then 1 else 0)"
  by (simp add: invoke_def Let_def logged_removals)

lemma registered_visit_mono:
  "registered (visit c st w oi) o' i = Some cb \<Longrightarrow> registered w o' i = Some cb"
  by (auto simp: visit_def registered_invoke split: option.splits if_splits)

lemma registered_visits_mono:
  "registered (visits c st L w) o' i = Some cb \<Longrightarrow> registered w o' i = Some cb"
  by (induction L arbitrary: w) (auto dest: registered_visit_mono)

lemma transitions_visits: "transitions (visits c st L w) = transitions w"
  by (induction L arbitrary: w) (auto simp: visit_def transitions_invoke split: option.splits)

text \<open>The calls made by a run of visits: each is a visit of the list, of a callback
  that was registered before the run.\<close>

lemma calls_visits:
  "\<exists>new. calls (visits c st L w) = calls w @ new \<and>
     (\<forall>e \<in> set new. \<exists>o' i. e = (o', c, st, i) \<and> (o', i) \<in> set L \<and> registered w o' i \<noteq> None)"
proof (induction L arbitrary: w)
  case Nil
  then show ?case by simp
next
  case (Cons oi L)
  obtain new where new: "calls (visits c st L (visit c st w oi)) = calls (visit c st w oi) @ new"
    and ne: "\<forall>e \<in> set new. \<exists>o' i. e = (o', c, st, i) \<and> (o', i) \<in> set L \<and>
         registered (visit c st w oi) o' i \<noteq> None"
    using Cons.IH[of "visit c st w oi"] by blast
  have ne': "\<forall>e \<in> set new. \<exists>o' i. e = (o', c, st, i) \<and> (o', i) \<in> set (oi # L) \<and>
         registered w o' i \<noteq> None"
  proof
    fix e assume "e \<in> set new"
    then obtain o' i where e: "e = (o', c, st, i)" "(o', i) \<in> set L"
      "registered (visit c st w oi) o' i \<noteq> None" using ne by blast
    then obtain cb where "registered (visit c st w oi) o' i = Some cb" by auto
    then have "registered w o' i = Some cb" by (rule registered_visit_mono)
    then show "\<exists>o' i. e = (o', c, st, i) \<and> (o', i) \<in> set (oi # L) \<and> registered w o' i \<noteq> None"
      using e by auto
  qed
  show ?case
  proof (cases "registered w (fst oi) (snd oi)")
    case None
    then have "visit c st w oi = w" by (simp add: visit_def)
    then show ?thesis using new ne' by auto
  next
    case (Some cb)
    then have "calls (visit c st w oi) = calls w @ [(fst oi, c, st, snd oi)]"
      by (simp add: visit_def calls_invoke)
    then have "calls (visits c st (oi # L) w) = calls w @ ((fst oi, c, st, snd oi) # new)"
      using new by simp
    moreover have "\<forall>e \<in> set ((fst oi, c, st, snd oi) # new).
        \<exists>o' i. e = (o', c, st, i) \<and> (o', i) \<in> set (oi # L) \<and> registered w o' i \<noteq> None"
      using ne' Some by auto
    ultimately show ?thesis by blast
  qed
qed

text \<open>A registered callback that no other visited callback removes is called when it
  is visited.\<close>

lemma calls_visit:
  "\<exists>xs. calls (visit c st w oj) = calls w @ xs"
  by (auto simp: visit_def calls_invoke split: option.splits)

lemma visits_delivers:
  "(o', i) \<in> set L \<Longrightarrow> registered w o' i = Some cb \<Longrightarrow>
   (\<forall>oj \<in> set L. \<forall>cb'. oj \<noteq> (o', i) \<longrightarrow> registered w (fst oj) (snd oj) = Some cb' \<longrightarrow>
       (o', i) \<notin> set (removes cb')) \<Longrightarrow>
   (o', c, st, i) \<in> set (drop (length (calls w)) (calls (visits c st L w)))"
proof (induction L arbitrary: w)
  case Nil
  then show ?case by simp
next
  case (Cons oj L)
  obtain new where new: "calls (visits c st L (visit c st w oj)) = calls (visit c st w oj) @ new"
    using calls_visits[of c st L "visit c st w oj"] by blast
  obtain xs where xs: "calls (visit c st w oj) = calls w @ xs"
    using calls_visit by blast
  show ?case
  proof (cases "oj = (o', i)")
    case True
    then have "calls (visit c st w oj) = calls w @ [(o', c, st, i)]"
      using Cons.prems(2) by (simp add: visit_def calls_invoke)
    then show ?thesis using new by simp
  next
    case False
    then have inL: "(o', i) \<in> set L" using Cons.prems(1) by auto
    have keep: "registered (visit c st w oj) o' i = Some cb"
    proof (cases "registered w (fst oj) (snd oj)")
      case None
      then show ?thesis using Cons.prems(2) by (simp add: visit_def)
    next
      case (Some cb')
      then have "(o', i) \<notin> set (removes cb')" using Cons.prems(3) False by auto
      then show ?thesis using Some Cons.prems(2) by (simp add: visit_def registered_invoke)
    qed
    have rest: "\<forall>oj' \<in> set L. \<forall>cb'. oj' \<noteq> (o', i) \<longrightarrow>
        registered (visit c st w oj) (fst oj') (snd oj') = Some cb' \<longrightarrow>
        (o', i) \<notin> set (removes cb')"
      using Cons.prems(3) registered_visit_mono[of c st w oj] by auto
    have "(o', c, st, i) \<in> set new" using Cons.IH[OF inL keep rest] new by simp
    then show ?thesis using new xs by simp
  qed
qed

lemma visits_keeps_registered:
  "registered w o' i = Some cb \<Longrightarrow>
   (\<forall>oj \<in> set L. \<forall>cb'. registered w (fst oj) (snd oj) = Some cb' \<longrightarrow>
       (o', i) \<notin> set (removes cb')) \<Longrightarrow>
   registered (visits c st L w) o' i = Some cb"
proof (induction L arbitrary: w)
  case Nil
  then show ?case by simp
next
  case (Cons oj L)
  have keep: "registered (visit c st w oj) o' i = Some cb"
  proof (cases "registered w (fst oj) (snd oj)")
    case None
    then show ?thesis using Cons.prems(1) by (simp add: visit_def)
  next
    case (Some cb')
    then have "(o', i) \<notin> set (removes cb')" using Cons.prems(2) by auto
    then show ?thesis using Some Cons.prems(1) by (simp add: visit_def registered_invoke)
  qed
  have rest: "\<forall>oj' \<in> set L. \<forall>cb'.
      registered (visit c st w oj) (fst oj') (snd oj') = Some cb' \<longrightarrow>
      (o', i) \<notin> set (removes cb')"
    using Cons.prems(2) registered_visit_mono[of c st w oj] by auto
  show ?case using Cons.IH[OF keep rest] by simp
qed

text \<open>After a call of a callback that removes (o', i), the callback i of node o' is not
  called again.\<close>

lemma visits_skips_removed:
  "calls (visits c st L w) = calls w @ xs @ (a, c1, st1, j) # ys \<Longrightarrow>
   registered w a j = Some cb' \<Longrightarrow> (o', i) \<in> set (removes cb') \<Longrightarrow>
   (o', c2, st2, i) \<notin> set ys"
proof (induction L arbitrary: w xs)
  case Nil
  then show ?case by simp
next
  case (Cons oj L)
  let ?w1 = "visit c st w oj"
  obtain new where new: "calls (visits c st L ?w1) = calls ?w1 @ new"
    and ne: "\<forall>e \<in> set new. \<exists>o2 i2. e = (o2, c, st, i2) \<and> (o2, i2) \<in> set L \<and>
         registered ?w1 o2 i2 \<noteq> None"
    using calls_visits[of c st L ?w1] by blast
  show ?case
  proof (cases "registered w (fst oj) (snd oj)")
    case None
    then have "?w1 = w" by (simp add: visit_def)
    then show ?thesis using Cons.IH[of w xs] Cons.prems by simp
  next
    case (Some cb)
    have c1: "calls ?w1 = calls w @ [(fst oj, c, st, snd oj)]"
      using Some by (simp add: visit_def calls_invoke)
    then have eq: "(fst oj, c, st, snd oj) # new = xs @ (a, c1, st1, j) # ys"
      using new Cons.prems(1) by simp
    show ?thesis
    proof (cases xs)
      case Nil
      then have h: "fst oj = a" "snd oj = j" "ys = new" using eq by auto
      then have "cb = cb'" using Some Cons.prems(2) by simp
      then have gone: "registered ?w1 o' i = None"
        using Some Cons.prems(3) by (simp add: visit_def registered_invoke)
      show ?thesis
      proof
        assume "(o', c2, st2, i) \<in> set ys"
        then have "registered ?w1 o' i \<noteq> None" using ne h by auto
        then show False using gone by simp
      qed
    next
      case (Cons x xs')
      then have new': "new = xs' @ (a, c1, st1, j) # ys" using eq by simp
      then have "(a, c1, st1, j) \<in> set new" by simp
      then have "registered ?w1 a j \<noteq> None" using ne by auto
      then obtain cb2 where cb2: "registered ?w1 a j = Some cb2" by auto
      then have "registered w a j = Some cb2" by (rule registered_visit_mono)
      then have "cb2 = cb'" using Cons.prems(2) by simp
      then show ?thesis
        using Cons.IH[of ?w1 xs'] new new' cb2 Cons.prems(3) by simp
    qed
  qed
qed

lemma logged_visits:
  "calls (visits c st L w) = calls w @ new \<Longrightarrow>
   logged (visits c st L w) = logged w +
     length (filter (\<lambda>e. case registered w (fst e) (snd (snd (snd e))) of
                             None \<Rightarrow> False | Some cb \<Rightarrow> raises cb) new)"
proof (induction L arbitrary: w new)
  case Nil
  then show ?case by simp
next
  case (Cons oj L)
  let ?w1 = "visit c st w oj"
  let ?r = "\<lambda>w e. case registered w (fst e) (snd (snd (snd e))) of
                             None \<Rightarrow> False | Some cb \<Rightarrow> raises cb"
  obtain new1 where new1: "calls (visits c st L ?w1) = calls ?w1 @ new1"
    and ne: "\<forall>e \<in> set new1. \<exists>o2 i2. e = (o2, c, st, i2) \<and> (o2, i2) \<in> set L \<and>
         registered ?w1 o2 i2 \<noteq> None"
    using calls_visits[of c st L ?w1] by blast
  have same: "filter (?r ?w1) new1 = filter (?r w) new1"
  proof (rule filter_cong[OF refl])
    fix e assume "e \<in> set new1"
    then obtain o2 i2 cb where e: "e = (o2, c, st, i2)" "registered ?w1 o2 i2 = Some cb"
      using ne by fastforce
    then have "registered w o2 i2 = Some cb" using registered_visit_mono by fast
    then show "?r ?w1 e = ?r w e" using e by simp
  qed
  have ih: "logged (visits c st L ?w1) = logged ?w1 + length (filter (?r w) new1)"
    using Cons.IH[OF new1] same by simp
  show ?case
  proof (cases "registered w (fst oj) (snd oj)")
    case None
    then have "?w1 = w" by (simp add: visit_def)
    then show ?thesis using ih new1 Cons.prems by simp
  next
    case (Some cb)
    then have "calls ?w1 = calls w @ [(fst oj, c, st, snd oj)]"
      and l: "logged ?w1 = logged w + (if raises cb then 1 else 0)"
      by (simp_all add: visit_def calls_invoke logged_invoke)
    then have "new = (fst oj, c, st, snd oj) # new1" using new1 Cons.prems by simp
    then show ?thesis using ih l Some by simp
  qed
qed

lemma prefix_butlast_cases:
  "prefix o' p \<Longrightarrow> p \<noteq> [] \<Longrightarrow> o' = p \<or> prefix o' (butlast p)"
  by (cases p rule: rev_cases) auto

lemma prefix_butlast_up: "prefix o' (butlast p) \<Longrightarrow> prefix o' p"
  by (meson prefix_order.order_trans prefixeq_butlast)

lemma fireUpwards_visits:
  "\<exists>L. fireUpwards w p c st = visits c st L w \<and>
       (\<forall>oj \<in> set L. prefix (fst oj) p) \<and>
       (\<forall>o' i cb. prefix o' p \<longrightarrow> registered w o' i = Some cb \<longrightarrow>
          (\<forall>o2 j cb'. prefix o2 p \<longrightarrow> (o2, j) \<noteq> (o', i) \<longrightarrow>
              registered w o2 j = Some cb' \<longrightarrow> (o', i) \<notin> set (removes cb')) \<longrightarrow>
          (o', i) \<in> set L)"
proof (induction w p c st rule: fireUpwards.induct)
  case (1 w p c st)
  let ?L1 = "map (Pair p) (map fst (callbacksAt w p))"
  let ?w1 = "visits c st ?L1 w"
  have fire: "fireOnStateChanged w p c st = ?w1"
    by (simp add: fireOnStateChanged_def fireLoop_visits)
  have own: "\<And>i cb. registered w p i = Some cb \<Longrightarrow> (p, i) \<in> set ?L1"
    by (auto simp: registered_def dest!: map_of_SomeD intro!: image_eqI)
  show ?case
  proof (cases "p = []")
    case True
    then have "fireUpwards w p c st = visits c st ?L1 w"
      using fire by (subst fireUpwards.simps) (simp add: Let_def)
    moreover have "\<forall>oj \<in> set ?L1. prefix (fst oj) p" by auto
    moreover have "\<forall>o' i cb. prefix o' p \<longrightarrow> registered w o' i = Some cb \<longrightarrow> (o', i) \<in> set ?L1"
      using True own by auto
    ultimately show ?thesis by blast
  next
    case False
    obtain L2 where L2: "fireUpwards ?w1 (butlast p) c st = visits c st L2 ?w1"
      and in2: "\<forall>oj \<in> set L2. prefix (fst oj) (butlast p)"
      and all2: "\<forall>o' i cb. prefix o' (butlast p) \<longrightarrow> registered ?w1 o' i = Some cb \<longrightarrow>
          (\<forall>o2 j cb'. prefix o2 (butlast p) \<longrightarrow> (o2, j) \<noteq> (o', i) \<longrightarrow>
              registered ?w1 o2 j = Some cb' \<longrightarrow> (o', i) \<notin> set (removes cb')) \<longrightarrow>
          (o', i) \<in> set L2"
      using "1.IH"[OF fire[symmetric] False] by blast
    have eq: "fireUpwards w p c st = visits c st (?L1 @ L2) w"
      using fire L2 False by (subst fireUpwards.simps) (simp add: Let_def visits_append)
    have inL: "\<forall>oj \<in> set (?L1 @ L2). prefix (fst oj) p"
      using in2 prefix_butlast_up by auto
    have allL: "\<forall>o' i cb. prefix o' p \<longrightarrow> registered w o' i = Some cb \<longrightarrow>
          (\<forall>o2 j cb'. prefix o2 p \<longrightarrow> (o2, j) \<noteq> (o', i) \<longrightarrow>
              registered w o2 j = Some cb' \<longrightarrow> (o', i) \<notin> set (removes cb')) \<longrightarrow>
          (o', i) \<in> set (?L1 @ L2)"
    proof (intro allI impI)
      fix o' i cb
      assume pre: "prefix o' p" and reg: "registered w o' i = Some cb"
        and safe: "\<forall>o2 j cb'. prefix o2 p \<longrightarrow> (o2, j) \<noteq> (o', i) \<longrightarrow>
              registered w o2 j = Some cb' \<longrightarrow> (o', i) \<notin> set (removes cb')"
      show "(o', i) \<in> set (?L1 @ L2)"
      proof (cases "o' = p")
        case True
        then show ?thesis using own reg by simp
      next
        case False
        then have pre': "prefix o' (butlast p)"
          using prefix_butlast_cases[OF pre \<open>p \<noteq> []\<close>] by simp
        have "\<forall>oj \<in> set ?L1. \<forall>cb'. registered w (fst oj) (snd oj) = Some cb' \<longrightarrow>
            (o', i) \<notin> set (removes cb')"
          using safe False by auto
        then have reg1: "registered ?w1 o' i = Some cb"
          using visits_keeps_registered[OF reg] by blast
        have safe1: "\<forall>o2 j cb'. prefix o2 (butlast p) \<longrightarrow> (o2, j) \<noteq> (o', i) \<longrightarrow>
              registered ?w1 o2 j = Some cb' \<longrightarrow> (o', i) \<notin> set (removes cb')"
          using safe prefix_butlast_up registered_visits_mono by meson
        have "(o', i) \<in> set L2" using all2 pre' reg1 safe1 by blast
        then show ?thesis by simp
      qed
    qed
    show ?thesis using eq inL allL by blast
  qed
qed

section \<open>Properties of _setState\<close>

text \<open>The callback calls made between two trees, and whether the callback of a call raises.\<close>

definition newCalls ::
  "('c, 't) tree \<Rightarrow> ('c, 't) tree \<Rightarrow> ('c path \<times> 'c path \<times> NamespaceState \<times> nat) list" where
  "newCalls w w' = drop (length (calls w)) (calls w')"

definition raisesAt ::
  "('c, 't) tree \<Rightarrow> 'c path \<times> 'c path \<times> NamespaceState \<times> nat \<Rightarrow> bool" where
  "raisesAt w e =
     (case registered w (fst e) (snd (snd (snd e))) of None \<Rightarrow> False | Some cb \<Rightarrow> raises cb)"

lemma registered_state_update:
  "registered (w\<lparr>root := updNode p (with_state st) (root w), transitions := z\<rparr>) o' i =
   registered w o' i"
  unfolding registered_def callbacksAt_fieldAt fieldAt_def
  by (simp add: getNode_updNode_same)

text \<open>
  Claim C5. Setting the state of the node at path p to st, for every node and state:
  the state of the node becomes st; every callback call made has an observer node that is
  p or an ancestor of p (a prefix of its path, so never a descendant), the changed node p,
  the state st and the id of a callback registered at the observer node; a callback
  registered at p or at an ancestor that no other callback registered there removes is
  called, whether or not any callback raises; once a callback that removes (o', i) has
  been called, callback i of node o' is not called later in the dispatch; and every
  exception raised by a called callback is logged, the dispatch going on.
\<close>

theorem setState_fires_observers:
  "calls (setState w p st) = calls w @ newCalls w (setState w p st) \<and>
   stateAt (setState w p st) p = map_option (\<lambda>s. st) (stateAt w p) \<and>
   (\<forall>e \<in> set (newCalls w (setState w p st)).
      \<exists>o' i. e = (o', p, st, i) \<and> prefix o' p \<and> registered w o' i \<noteq> None) \<and>
   (\<forall>o' i cb. prefix o' p \<longrightarrow> registered w o' i = Some cb \<longrightarrow>
      (\<forall>o2 j cb'. prefix o2 p \<longrightarrow> (o2, j) \<noteq> (o', i) \<longrightarrow>
          registered w o2 j = Some cb' \<longrightarrow> (o', i) \<notin> set (removes cb')) \<longrightarrow>
      (o', p, st, i) \<in> set (newCalls w (setState w p st))) \<and>
   (\<forall>xs a j ys cb' o' i. newCalls w (setState w p st) = xs @ (a, p, st, j) # ys \<longrightarrow>
      registered w a j = Some cb' \<longrightarrow> (o', i) \<in> set (removes cb') \<longrightarrow>
      (o', p, st, i) \<notin> set ys) \<and>
   logged (setState w p st) =
     logged w + length (filter (raisesAt w) (newCalls w (setState w p st)))"
proof -
  let ?w0 = "w\<lparr>root := updNode p (with_state st) (root w),
                 transitions := transitions w @ [(p, st)]\<rparr>"
  have reg0: "\<And>o' i. registered ?w0 o' i = registered w o' i"
    by (rule registered_state_update)
  obtain L where L: "setState w p st = visits p st L ?w0"
    and inL: "\<forall>oj \<in> set L. prefix (fst oj) p"
    and allL: "\<forall>o' i cb. prefix o' p \<longrightarrow> registered ?w0 o' i = Some cb \<longrightarrow>
          (\<forall>o2 j cb'. prefix o2 p \<longrightarrow> (o2, j) \<noteq> (o', i) \<longrightarrow>
              registered ?w0 o2 j = Some cb' \<longrightarrow> (o', i) \<notin> set (removes cb')) \<longrightarrow>
          (o', i) \<in> set L"
    using fireUpwards_visits[of ?w0 p p st] unfolding setState_def by blast
  obtain new where new: "calls (visits p st L ?w0) = calls ?w0 @ new"
    and ne: "\<forall>e \<in> set new. \<exists>o' i. e = (o', p, st, i) \<and> (o', i) \<in> set L \<and>
        registered ?w0 o' i \<noteq> None"
    using calls_visits[of p st L ?w0] by blast
  have c0: "calls ?w0 = calls w" by simp
  have nc: "newCalls w (setState w p st) = new"
    using new L c0 by (simp add: newCalls_def)
  have p1: "calls (setState w p st) = calls w @ newCalls w (setState w p st)"
    using new L c0 nc by simp
  have p2: "stateAt (setState w p st) p = map_option (\<lambda>s. st) (stateAt w p)"
    by (simp add: stateAt_setState)
  have p3: "\<forall>e \<in> set new. \<exists>o' i. e = (o', p, st, i) \<and> prefix o' p \<and> registered w o' i \<noteq> None"
    using ne inL reg0 by fastforce
  have p4: "\<forall>o' i cb. prefix o' p \<longrightarrow> registered w o' i = Some cb \<longrightarrow>
      (\<forall>o2 j cb'. prefix o2 p \<longrightarrow> (o2, j) \<noteq> (o', i) \<longrightarrow>
          registered w o2 j = Some cb' \<longrightarrow> (o', i) \<notin> set (removes cb')) \<longrightarrow>
      (o', p, st, i) \<in> set new"
  proof (intro allI impI)
    fix o' i cb
    assume pre: "prefix o' p" and reg: "registered w o' i = Some cb"
      and safe: "\<forall>o2 j cb'. prefix o2 p \<longrightarrow> (o2, j) \<noteq> (o', i) \<longrightarrow>
          registered w o2 j = Some cb' \<longrightarrow> (o', i) \<notin> set (removes cb')"
    have mem: "(o', i) \<in> set L" using allL pre reg safe reg0 by simp
    have others: "\<forall>oj \<in> set L. \<forall>cb'. oj \<noteq> (o', i) \<longrightarrow>
        registered ?w0 (fst oj) (snd oj) = Some cb' \<longrightarrow> (o', i) \<notin> set (removes cb')"
    proof (intro ballI allI impI)
      fix oj cb'
      assume "oj \<in> set L" "oj \<noteq> (o', i)" "registered ?w0 (fst oj) (snd oj) = Some cb'"
      then have "prefix (fst oj) p" "(fst oj, snd oj) \<noteq> (o', i)"
        "registered w (fst oj) (snd oj) = Some cb'"
        using inL reg0 by auto
      then show "(o', i) \<notin> set (removes cb')" using safe by blast
    qed
    have "(o', p, st, i) \<in> set (drop (length (calls ?w0)) (calls (visits p st L ?w0)))"
      using visits_delivers[OF mem _ others, of cb p st] reg reg0 by simp
    then show "(o', p, st, i) \<in> set new" using new by simp
  qed
  have p5: "\<forall>xs a j ys cb' o' i. new = xs @ (a, p, st, j) # ys \<longrightarrow>
      registered w a j = Some cb' \<longrightarrow> (o', i) \<in> set (removes cb') \<longrightarrow>
      (o', p, st, i) \<notin> set ys"
  proof (intro allI impI)
    fix xs a j ys cb' o' i
    assume sp: "new = xs @ (a, p, st, j) # ys" and reg: "registered w a j = Some cb'"
      and rem: "(o', i) \<in> set (removes cb')"
    have "calls (visits p st L ?w0) = calls ?w0 @ xs @ (a, p, st, j) # ys"
      using new sp by simp
    then show "(o', p, st, i) \<notin> set ys"
      using visits_skips_removed[of p st L ?w0 xs a p st j ys cb' o' i p st] reg reg0 rem
      by simp
  qed
  have p6: "logged (setState w p st) = logged w + length (filter (raisesAt w) new)"
  proof -
    have "(\<lambda>e. case registered ?w0 (fst e) (snd (snd (snd e))) of
                 None \<Rightarrow> False | Some cb \<Rightarrow> raises cb) = raisesAt w"
      using reg0 by (intro ext) (simp add: raisesAt_def)
    then show ?thesis using logged_visits[OF new] L by simp
  qed
  show ?thesis unfolding nc using p1 p2 p3 p4 p5 p6 nc by simp
qed

definition observed :: "(nat, string) tree" where
  "observed = \<lparr>rootName = [0],
     root = Namespace
       [(5, Namespace [] [] NAME_EXISTS None None [(3, Callback [([], 2)] False)] None)]
       [5] NAME_EXISTS None None [(1, Callback [] True), (2, Callback [] False)] None,
     calls = [], transitions = [], logged = 0\<rparr>"

lemma observed_calls:
  "calls (setState observed [5] DATA_RECEIVED) =
     [([5], [5], DATA_RECEIVED, 3), ([], [5], DATA_RECEIVED, 1)]"
  by (simp add: observed_def setState_def fireUpwards.simps fireOnStateChanged_def
      callbacksAt_def invoke_def removeCallback_def Let_def)

theorem setState_fires_observers_witness:
  "registered observed [] 1 = Some (Callback [] True) \<and>
   ([], [5], DATA_RECEIVED, 1) \<in> set (newCalls observed (setState observed [5] DATA_RECEIVED)) \<and>
   ([]::nat list, [5::nat], DATA_RECEIVED, 2::nat) \<notin> set [([], [5], DATA_RECEIVED, 1)] \<and>
   stateAt (setState observed [5] DATA_RECEIVED) [5] = Some DATA_RECEIVED"
proof -
  note th = setState_fires_observers[of observed "[5]" DATA_RECEIVED]
  have reg: "registered observed [] 1 = Some (Callback [] True)"
    by (simp add: registered_def callbacksAt_def observed_def)
  have pre: "prefix [] [5::nat]" by simp
  have safe: "\<forall>o2 j cb'. prefix o2 [5] \<longrightarrow> (o2, j) \<noteq> ([], 1) \<longrightarrow>
      registered observed o2 j = Some cb' \<longrightarrow> ([], 1) \<notin> set (removes cb')"
    by (auto simp: prefix_Cons registered_def callbacksAt_def observed_def split: if_splits)
  have delivered:
    "([], [5], DATA_RECEIVED, 1) \<in> set (newCalls observed (setState observed [5] DATA_RECEIVED))"
    by (rule th[THEN conjunct2, THEN conjunct2, THEN conjunct2, THEN conjunct1,
          rule_format, OF pre reg safe[rule_format]])
  have reg3: "registered observed [5] 3 = Some (Callback [([], 2)] False)"
    by (simp add: registered_def callbacksAt_def observed_def)
  have split: "newCalls observed (setState observed [5] DATA_RECEIVED) =
      [] @ ([5], [5], DATA_RECEIVED, 3) # [([], [5], DATA_RECEIVED, 1)]"
    by (simp add: newCalls_def observed_calls) (simp add: observed_def)
  have rem: "([], 2) \<in> set (removes (Callback [([], 2)] False))" by simp
  have skipped: "([]::nat list, [5::nat], DATA_RECEIVED, 2::nat) \<notin> set [([], [5], DATA_RECEIVED, 1)]"
    by (rule th[THEN conjunct2, THEN conjunct2, THEN conjunct2, THEN conjunct2,
          THEN conjunct1, rule_format, OF split reg3 rem])
  have st: "stateAt (setState observed [5] DATA_RECEIVED) [5] = Some DATA_RECEIVED"
    using th by (simp add: stateAt_def observed_def)
  show ?thesis using reg delivered skipped st by blast
qed

lemma transitions_setState: "transitions (setState w p st) = transitions w @ [(p, st)]"
proof -
  obtain L where "setState w p st =
      visits p st L (w\<lparr>root := updNode p (with_state st) (root w),
                         transitions := transitions w @ [(p, st)]\<rparr>)"
    using fireUpwards_visits[of _ p p st] unfolding setState_def by blast
  then show ?thesis by (simp add: transitions_visits)
qed

lemma getTransformContent_cong:
  "(\<And>a. transformContentAt w' a = transformContentAt w a) \<Longrightarrow>
   getTransformContent w' p = getTransformContent w p"
proof (induction w p rule: getTransformContent.induct)
  case (1 w p)
  show ?case
    using "1.IH" "1.prems"
    by (subst getTransformContent.simps, subst (2) getTransformContent.simps)
       (simp split: option.splits)
qed

lemma fieldAt_root_update:
  assumes "\<And>cs n. g (with_children cs n) = g n" "\<And>n. children (f n) = children n"
  shows "fieldAt g (w\<lparr>root := updNode p f (root w)\<rparr>) a =
     (if a = p then map_option (\<lambda>n. g (f n)) (getNode (root w) a) else fieldAt g w a)"
  unfolding fieldAt_def using getNode_updNode_same[of g f p "root w" a] assms by simp

section \<open>Properties of setData\<close>

lemma nodeExists_fieldAt: "nodeExists w p = (fieldAt (\<lambda>n. ()) w p = Some ())"
  by (auto simp: nodeExists_def fieldAt_def)

lemma nodeExists_getNode: "nodeExists w p \<Longrightarrow> \<exists>n. getNode (root w) p = Some n"
  by (auto simp: nodeExists_def)

lemma dataAt_setState: "dataAt (setState w p st) a = dataAt w a"
  by (simp add: dataAt_fieldAt fieldAt_setState_other stable_fields)

lemma contentAt_setState: "contentAt (setState w p st) a = contentAt w a"
  by (simp add: contentAt_fieldAt fieldAt_setState_other stable_fields)

lemma transformContentAt_setState:
  "transformContentAt (setState w p st) a = transformContentAt w a"
  by (simp add: transformContentAt_fieldAt fieldAt_setState_other stable_fields)

lemma nodeExists_setState: "nodeExists (setState w p st) a = nodeExists w a"
  by (simp add: nodeExists_fieldAt fieldAt_setState_other stable_fields)

lemma nodeExists_root_update:
  "(\<And>n. children (f n) = children n) \<Longrightarrow>
   nodeExists (w\<lparr>root := updNode p f (root w)\<rparr>) a = nodeExists w a"
  by (simp add: nodeExists_fieldAt fieldAt_root_update) (simp add: fieldAt_def)

lemma stateAt_setState_exists:
  assumes "nodeExists w p"
  shows "stateAt (setState w p st) p = Some st"
proof -
  obtain n where "getNode (root w) p = Some n" using assms nodeExists_getNode by blast
  then have "stateAt w p = Some (state n)" by (simp add: stateAt_def)
  then show ?thesis by (simp add: stateAt_setState)
qed

lemma onContentTransformed_facts:
  assumes "nodeExists w p"
  shows "dataAt (onContentTransformed w p c) a = dataAt w a"
    and "contentAt (onContentTransformed w p c) p = Some c"
    and "stateAt (onContentTransformed w p c) p = Some CONTENT_READY"
    and "transitions (onContentTransformed w p c) = transitions w @ [(p, CONTENT_READY)]"
proof -
  let ?w1 = "w\<lparr>root := updNode p (with_content (Some c)) (root w)\<rparr>"
  obtain n where n: "getNode (root w) p = Some n" using assms nodeExists_getNode by blast
  have ex: "nodeExists ?w1 p" using assms by (simp add: nodeExists_root_update)
  show "dataAt (onContentTransformed w p c) a = dataAt w a"
    by (simp add: onContentTransformed_def dataAt_setState)
       (simp add: dataAt_fieldAt fieldAt_root_update, simp add: fieldAt_def)
  show "contentAt (onContentTransformed w p c) p = Some c"
    using n
    by (simp add: onContentTransformed_def contentAt_setState)
       (simp add: contentAt_fieldAt fieldAt_root_update)
  show "stateAt (onContentTransformed w p c) p = Some CONTENT_READY"
    unfolding onContentTransformed_def by (rule stateAt_setState_exists[OF ex])
  show "transitions (onContentTransformed w p c) = transitions w @ [(p, CONTENT_READY)]"
    by (simp add: onContentTransformed_def transitions_setState)
qed

text \<open>
  Claim C10. On a node that has a Data packet attached, setData returns without raising
  for every packet, also one whose name is not the node's, and leaves the tree as it was:
  _data, _content and _state are unchanged and no callback is called. When setData raises,
  the error is the RuntimeError of the name check, no data was attached, the names
  differ, and the tree is unchanged.
\<close>

theorem setData_already_attached:
  "(dataAt w p \<noteq> None \<longrightarrow> setData w p d = (None, w)) \<and>
   (fst (setData w p d) \<noteq> None \<longrightarrow>
      fst (setData w p d) = Some RuntimeError \<and> dataAt w p = None \<and>
      data_name d \<noteq> nameOf w p \<and> snd (setData w p d) = w)"
  by (simp add: setData_def Let_def)

definition attached :: "(nat, string) tree" where
  "attached = \<lparr>rootName = [0],
     root = Namespace [] [] CONTENT_READY (Some (Data [0] ''x'')) (Some ''x'')
       [(1, Callback [] False)] None,
     calls = [], transitions = [], logged = 0\<rparr>"

theorem setData_already_attached_witness:
  "dataAt attached [] \<noteq> None \<and> data_name (Data [9] ''y'') \<noteq> nameOf attached [] \<and>
   setData attached [] (Data [9] ''y'') = (None, attached)"
proof -
  have a: "dataAt attached [] \<noteq> None" by (simp add: dataAt_def attached_def)
  have n: "data_name (Data [9] ''y'') \<noteq> nameOf attached []"
    by (simp add: nameOf_def attached_def)
  have "setData attached [] (Data [9] ''y'') = (None, attached)"
    by (rule setData_already_attached[THEN conjunct1, rule_format, OF a])
  then show ?thesis using a n by blast
qed

text \<open>
  Claim C4. On a node with no Data packet attached: a packet whose name is not the name of
  the node raises RuntimeError and leaves the tree as it was; a packet with the name of the
  node is attached without an error, _state is set to DATA_RECEIVED and next, when no
  transform hook is set on the node or an ancestor (or when the hook calls back at once),
  to CONTENT_READY with the content of the packet as _content; and every later setData on
  the node returns with no error and leaves the tree as it is, with no state set and no
  callback called.
\<close>

theorem setData_attaches_once:
  assumes ex: "nodeExists w p" and nodata: "dataAt w p = None"
  shows "(data_name d \<noteq> nameOf w p \<longrightarrow> setData w p d = (Some RuntimeError, w)) \<and>
     (data_name d = nameOf w p \<longrightarrow>
        fst (setData w p d) = None \<and>
        dataAt (snd (setData w p d)) p = Some d \<and>
        transitions (snd (setData w p d)) =
          transitions w @ (p, DATA_RECEIVED) #
            (case getTransformContent w p of
               None \<Rightarrow> [(p, CONTENT_READY)]
             | Some tc \<Rightarrow> (case tc d of None \<Rightarrow> [] | Some c \<Rightarrow> [(p, CONTENT_READY)])) \<and>
        (getTransformContent w p = None \<longrightarrow>
           stateAt (snd (setData w p d)) p = Some CONTENT_READY \<and>
           contentAt (snd (setData w p d)) p = Some (data_content d)) \<and>
        (\<forall>d'. setData (snd (setData w p d)) p d' = (None, snd (setData w p d))))"
proof (intro conjI impI)
  assume "data_name d \<noteq> nameOf w p"
  then show "setData w p d = (Some RuntimeError, w)"
    using nodata by (simp add: setData_def)
next
  assume eq: "data_name d = nameOf w p"
  let ?w1 = "w\<lparr>root := updNode p (with_data (Some d)) (root w)\<rparr>"
  let ?w2 = "setState ?w1 p DATA_RECEIVED"
  let ?w3 = "case getTransformContent ?w2 p of
              Some tc \<Rightarrow> (case tc d of Some c \<Rightarrow> onContentTransformed ?w2 p c | None \<Rightarrow> ?w2)
            | None \<Rightarrow> onContentTransformed ?w2 p (data_content d)"
  have sd: "setData w p d = (None, ?w3)"
    using nodata eq by (simp add: setData_def Let_def)
  obtain n where n: "getNode (root w) p = Some n" using ex nodeExists_getNode by blast
  have ex1: "nodeExists ?w1 p" using ex by (simp add: nodeExists_root_update)
  have ex2: "nodeExists ?w2 p" using ex1 by (simp add: nodeExists_setState)
  have d1: "dataAt ?w1 p = Some d"
    using n by (simp add: dataAt_fieldAt fieldAt_root_update)
  have d2: "dataAt ?w2 p = Some d" using d1 by (simp add: dataAt_setState)
  have t2: "transitions ?w2 = transitions w @ [(p, DATA_RECEIVED)]"
    by (simp add: transitions_setState)
  have "\<And>a. transformContentAt ?w2 a = transformContentAt w a"
    by (simp add: transformContentAt_setState)
       (simp add: transformContentAt_fieldAt fieldAt_root_update, simp add: fieldAt_def)
  then have g: "getTransformContent ?w2 p = getTransformContent w p"
    by (rule getTransformContent_cong)
  note oc = onContentTransformed_facts[OF ex2]
  show "fst (setData w p d) = None" using sd by simp
  show d3: "dataAt (snd (setData w p d)) p = Some d"
    using sd d2 oc(1) by (simp split: option.splits)
  show "transitions (snd (setData w p d)) =
          transitions w @ (p, DATA_RECEIVED) #
            (case getTransformContent w p of
               None \<Rightarrow> [(p, CONTENT_READY)]
             | Some tc \<Rightarrow> (case tc d of None \<Rightarrow> [] | Some c \<Rightarrow> [(p, CONTENT_READY)]))"
    using sd g t2 oc(4) by (simp split: option.splits)
  show "\<forall>d'. setData (snd (setData w p d)) p d' = (None, snd (setData w p d))"
    using d3 by (simp add: setData_def)
  assume "getTransformContent w p = None"
  then have "?w3 = onContentTransformed ?w2 p (data_content d)" using g by simp
  then show "stateAt (snd (setData w p d)) p = Some CONTENT_READY"
    and "contentAt (snd (setData w p d)) p = Some (data_content d)"
    using sd oc(2,3) by simp_all
qed

theorem setData_attaches_once_witness:
  "nodeExists observed [5] \<and> dataAt observed [5] = None \<and>
   setData observed [5] (Data [9] ''x'') = (Some RuntimeError, observed) \<and>
   fst (setData observed [5] (Data [0, 5] ''hello'')) = None \<and>
   dataAt (snd (setData observed [5] (Data [0, 5] ''hello''))) [5] = Some (Data [0, 5] ''hello'') \<and>
   transitions (snd (setData observed [5] (Data [0, 5] ''hello''))) =
     [([5], DATA_RECEIVED), ([5], CONTENT_READY)] \<and>
   stateAt (snd (setData observed [5] (Data [0, 5] ''hello''))) [5] = Some CONTENT_READY \<and>
   contentAt (snd (setData observed [5] (Data [0, 5] ''hello''))) [5] = Some ''hello''"
proof -
  have ex: "nodeExists observed [5]" by (simp add: nodeExists_def observed_def)
  have nodata: "dataAt observed [5] = None" by (simp add: dataAt_def observed_def)
  have bad: "data_name (Data [9] ''x'') \<noteq> nameOf observed [5]"
    by (simp add: nameOf_def observed_def)
  have good: "data_name (Data [0, 5] ''hello'') = nameOf observed [5]"
    by (simp add: nameOf_def observed_def)
  have nohook: "getTransformContent observed [5] = None"
    by (simp add: getTransformContent.simps transformContentAt_def observed_def)
  have tr: "transitions observed = []" by (simp add: observed_def)
  note th1 = setData_attaches_once[OF ex nodata, of "Data [9] ''x''", THEN conjunct1,
      rule_format, OF bad]
  note th2 = setData_attaches_once[OF ex nodata, of "Data [0, 5] ''hello''", THEN conjunct2,
      rule_format, OF good]
  show ?thesis using ex nodata th1 th2 nohook tr by simp
qed

section \<open>Properties of getChild\<close>




lemma createChild_addChild:
  "createChild w q k fire =
     (if fire then setState (w\<lparr>root := updNode q (addChild k) (root w)\<rparr>) q NAME_EXISTS
      else w\<lparr>root := updNode q (addChild k) (root w)\<rparr>)"
  by (simp add: createChild_def Let_def)









section \<open>getChild and setData keep the invariant of the sorted keys\<close>

text \<open>
  A root made by the constructor has no children and is well formed; getChild and setData
  keep the tree well formed, so every tree built through them satisfies the hypothesis of
  the theorem on _findBestMatchName.
\<close>

lemma wellFormed_newTree: "wellFormed (root (newTree nm))"
  by (simp add: newTree_def)

lemma wellFormed_with [simp]:
  "wellFormed (with_state s n) = wellFormed n"
  "wellFormed (with_data d n) = wellFormed n"
  "wellFormed (with_content c n) = wellFormed n"
  "wellFormed (with_callbacks cbs n) = wellFormed n"
  by (cases n; simp)+

lemma wellFormed_sel:
  "wellFormed n =
     (sorted (sortedChildrenKeys n) \<and> distinct (sortedChildrenKeys n) \<and>
      set (sortedChildrenKeys n) = fst ` set (children n) \<and> distinct (map fst (children n)) \<and>
      (\<forall>kc \<in> set (children n). wellFormed (snd kc)))"
  by (cases n) simp

lemma set_alist_update:
  "kc \<in> set (AList.update k v al) \<Longrightarrow> kc = (k, v) \<or> kc \<in> set al"
  by (induction al) (auto split: if_splits)

lemma wellFormed_replace_child:
  assumes "wellFormed n" and "map_of (children n) k = Some child" and "wellFormed child'"
  shows "wellFormed (with_children (AList.update k child' (children n)) n)"
proof -
  have k: "k \<in> fst ` set (children n)" using assms(2) by (auto dest: map_of_SomeD intro: image_eqI[where x="(k, child)"])
  have "\<forall>kc \<in> set (AList.update k child' (children n)). wellFormed (snd kc)"
  proof
    fix kc assume "kc \<in> set (AList.update k child' (children n))"
    then have "kc = (k, child') \<or> kc \<in> set (children n)"
      by (rule set_alist_update)
    moreover have "\<forall>kc \<in> set (children n). wellFormed (snd kc)"
      using assms(1) by (subst (asm) wellFormed_sel) simp
    ultimately show "wellFormed (snd kc)" using assms(3) by auto
  qed
  moreover have "fst ` set (AList.update k child' (children n)) = fst ` set (children n)"
    using k by (auto simp: dom_update)
  ultimately show ?thesis
    using assms(1) by (subst wellFormed_sel, subst (asm) wellFormed_sel) (simp add: distinct_update)
qed

lemma wellFormed_updNode:
  "wellFormed t \<Longrightarrow> (\<And>n. wellFormed n \<Longrightarrow> getNode t q = Some n \<Longrightarrow> wellFormed (f n)) \<Longrightarrow>
   wellFormed (updNode q f t)"
proof (induction q arbitrary: t)
  case Nil
  then show ?case by simp
next
  case (Cons k q)
  show ?case
  proof (cases "map_of (children t) k")
    case None
    then show ?thesis using Cons.prems(1) by simp
  next
    case (Some child)
    have wc: "wellFormed child" using wellFormed_child[OF Cons.prems(1) Some] .
    have "wellFormed (updNode q f child)"
      using Cons.IH[OF wc] Cons.prems(2) Some by simp
    then show ?thesis using wellFormed_replace_child[OF Cons.prems(1) Some] Some by simp
  qed
qed

lemma wellFormed_addChild:
  assumes "wellFormed n" and "map_of (children n) k = None"
  shows "wellFormed (addChild k n)"
proof -
  have k: "k \<notin> fst ` set (children n)" using assms(2) by (simp add: map_of_eq_None_iff)
  then have k': "k \<notin> set (sortedChildrenKeys n)"
    using assms(1) by (subst (asm) wellFormed_sel) simp
  let ?leaf = "Namespace [] [] NAME_EXISTS None None [] None :: ('a, 'b) namespace"
  have "\<forall>kc \<in> set (AList.update k ?leaf (children n)). wellFormed (snd kc)"
  proof
    fix kc assume "kc \<in> set (AList.update k ?leaf (children n))"
    then have "kc = (k, ?leaf) \<or> kc \<in> set (children n)"
      by (rule set_alist_update)
    moreover have "\<forall>kc \<in> set (children n). wellFormed (snd kc)"
      using assms(1) by (subst (asm) wellFormed_sel) simp
    ultimately show "wellFormed (snd kc)" by auto
  qed
  then show ?thesis
    using assms(1) k k'
    by (subst wellFormed_sel, subst (asm) wellFormed_sel)
       (simp add: addChild_def sorted_insort distinct_insort set_insort_key distinct_update
          dom_update)
qed

lemma wellFormed_removeCallback:
  "wellFormed (root w) \<Longrightarrow> wellFormed (root (removeCallback w q j))"
  by (simp add: removeCallback_def wellFormed_updNode)

lemma wellFormed_removals:
  "wellFormed (root w) \<Longrightarrow>
   wellFormed (root (fold (\<lambda>(q, j) w'. removeCallback w' q j) rs w))"
  by (induction rs arbitrary: w) (auto simp: wellFormed_removeCallback)

lemma wellFormed_visit: "wellFormed (root w) \<Longrightarrow> wellFormed (root (visit c st w oi))"
  by (auto simp: visit_def invoke_def Let_def wellFormed_removals split: option.splits)

lemma wellFormed_visits: "wellFormed (root w) \<Longrightarrow> wellFormed (root (visits c st L w))"
  by (induction L arbitrary: w) (auto simp: wellFormed_visit)

lemma wellFormed_setState: "wellFormed (root w) \<Longrightarrow> wellFormed (root (setState w p st))"
proof -
  assume wf: "wellFormed (root w)"
  let ?w0 = "w\<lparr>root := updNode p (with_state st) (root w),
                 transitions := transitions w @ [(p, st)]\<rparr>"
  obtain L where "setState w p st = visits p st L ?w0"
    using fireUpwards_visits[of ?w0 p p st] unfolding setState_def by blast
  moreover have "wellFormed (root ?w0)" using wf by (simp add: wellFormed_updNode)
  ultimately show ?thesis by (simp add: wellFormed_visits)
qed

lemma wellFormed_createChild:
  assumes "wellFormed (root w)" and "\<not> hasChildAt w q k"
  shows "wellFormed (root (createChild w q k fire))"
proof -
  have "wellFormed (updNode q (addChild k) (root w))"
  proof (rule wellFormed_updNode[OF assms(1)])
    fix n assume "wellFormed n" "getNode (root w) q = Some n"
    then show "wellFormed (addChild k n)"
      using assms(2) by (auto simp: hasChildAt_def intro: wellFormed_addChild)
  qed
  then show ?thesis by (simp add: createChild_addChild wellFormed_setState)
qed

lemma wellFormed_getChildLoop:
  "wellFormed (root w) \<Longrightarrow> wellFormed (root (fst (getChildLoop w q B)))"
proof (induction w q B rule: getChildLoop.induct)
  case (1 w q B)
  show ?case
  proof (cases "length (nameOf w q) < length B")
    case False
    then show ?thesis using "1.prems" by (subst getChildLoop.simps) simp
  next
    case True
    let ?k = "B ! length (nameOf w q)"
    show ?thesis
    proof (cases "hasChildAt w q ?k")
      case has: True
      then show ?thesis
        using "1.IH"(1)[OF True refl has "1.prems"] True
        by (subst getChildLoop.simps) (simp add: Let_def)
    next
      case has: False
      let ?leaf = "length (nameOf w q) = length B - 1"
      have "wellFormed (root (createChild w q ?k ?leaf))"
        using wellFormed_createChild[OF "1.prems" has] .
      then show ?thesis
        using "1.IH"(2)[OF True refl has refl] True has
        by (subst getChildLoop.simps) (simp add: Let_def)
    qed
  qed
qed

lemma wellFormed_getChild:
  "wellFormed (root w) \<Longrightarrow> wellFormed (root (fst (getChild w p a)))"
proof (cases a)
  case (AName B)
  obtain w' q where l: "getChildLoop w p B = (w', q)" by (cases "getChildLoop w p B")
  assume "wellFormed (root w)"
  then show ?thesis
    using wellFormed_getChildLoop[of w p B] l AName by simp
next
  case (AComponent k)
  assume "wellFormed (root w)"
  then show ?thesis
    using wellFormed_createChild[of w p k True] AComponent by simp
qed

lemma wellFormed_setData:
  "wellFormed (root w) \<Longrightarrow> wellFormed (root (snd (setData w p d)))"
  by (auto simp: setData_def Let_def onContentTransformed_def wellFormed_setState
      wellFormed_updNode split: option.splits)

section \<open>The stream handler (generalized_object_stream_handler.py)\<close>

text \<open>
  The handler reads names through the typed components of the external Name class: a
  component is a sequence number, a version or another value. The two reserved components
  are _latest and _meta.
\<close>

datatype component = Generic string | SequenceNumber nat | Version nat

definition NAME_COMPONENT_LATEST :: component where
  "NAME_COMPONENT_LATEST = Generic ''_latest''"

definition NAME_COMPONENT_META :: component where
  "NAME_COMPONENT_META = Generic ''_meta''"

fun isSequenceNumber :: "component \<Rightarrow> bool" where
  "isSequenceNumber (SequenceNumber n) = True"
| "isSequenceNumber c = False"

fun isVersion :: "component \<Rightarrow> bool" where
  "isVersion (Version n) = True"
| "isVersion c = False"

fun toSequenceNumber :: "component \<Rightarrow> int" where
  "toSequenceNumber (SequenceNumber n) = int n"
| "toSequenceNumber c = -1"

text \<open>
  The calls the handler makes to its collaborators, in the order it makes them:
  callLater on the Face with its delay (the callback is always the pull of _latest),
  objectNeeded(True) on the _latest node, objectNeeded() on the _meta node of a sequence
  number, the construction of a GeneralizedObjectHandler for a sequence number, setObject of
  the GeneralizedObjectHandler at a sequence number, and the onSequencedGeneralizedObject
  callback of the application.
\<close>

datatype action =
    CallLater "real option"
  | ObjectNeededLatest
  | ObjectNeededMeta int
  | NewGeneralizedObjectHandler int
  | SetGeneralizedObject int
  | OnSequencedGeneralizedObject int

text \<open>
  The fields of the handler, followed by what it reads from the tree it is attached to:
  whether a Face is set on the _latest node or an ancestor, the sequence numbers whose node
  has an obj, those whose _meta node has a Data packet, and the state of the _meta nodes (a
  node not listed is in state NAME_EXISTS, as a new node is); and by the record of the
  calls made. The namespace is given by its name; None when no Namespace is set.
\<close>

record handler =
  namespace :: "component name option"
  pipelineSize :: int
  onSequencedGeneralizedObject :: bool
  producedSequenceNumber :: int
  latestPacketFreshnessPeriod :: "real option"
  nRequestedSequenceNumbers :: int
  maxRequestedSequenceNumber :: int
  nReportedSequenceNumbers :: int
  maxReportedSequenceNumber :: int
  hasFace :: bool
  objects :: "int list"
  metaData :: "int list"
  metaState :: "(int \<times> nat) list"
  actions :: "action list"

definition metaStateOf :: "handler \<Rightarrow> int \<Rightarrow> nat" where
  "metaStateOf h sequenceNumber =
     (case map_of (metaState h) sequenceNumber of
        None \<Rightarrow> stateValue NAME_EXISTS
      | Some s \<Rightarrow> s)"

definition alreadyRequested :: "handler \<Rightarrow> int \<Rightarrow> bool" where
  "alreadyRequested h sequenceNumber =
     (sequenceNumber \<in> set (metaData h) \<or>
      metaStateOf h sequenceNumber \<ge> stateValue INTEREST_EXPRESSED)"

text \<open>
  Modelled from the spec: Namespace.objectNeeded is not defined in namespace.py. Issuing the
  fetch of a _meta node puts the node in state INTEREST_EXPRESSED ("state \<ge>
  INTEREST_EXPRESSED means a request for this node has already been issued or completed").
\<close>

definition objectNeededMeta :: "handler \<Rightarrow> int \<Rightarrow> handler" where
  "objectNeededMeta h sequenceNumber =
     h\<lparr>metaState :=
         AList.update sequenceNumber (stateValue INTEREST_EXPRESSED) (metaState h),
       actions := actions h @ [ObjectNeededMeta sequenceNumber]\<rparr>"

text \<open>The body of the loop of _requestNewSequenceNumbers after the continue.\<close>

definition requestOne :: "handler \<Rightarrow> int \<Rightarrow> handler" where
  "requestOne h sequenceNumber =
     (let h1 = h\<lparr>nRequestedSequenceNumbers := nRequestedSequenceNumbers h + 1\<rparr>;
          h2 = h1\<lparr>actions := actions h1 @ [NewGeneralizedObjectHandler sequenceNumber]\<rparr>;
          h3 = (if sequenceNumber > maxRequestedSequenceNumber h2
                then h2\<lparr>maxRequestedSequenceNumber := sequenceNumber\<rparr> else h2)
      in objectNeededMeta h3 sequenceNumber)"

text \<open>
  The loop ends: each pass either requests a sequence number, or steps over one of the
  finitely many that are already requested.
\<close>

definition pendingAbove :: "handler \<Rightarrow> int \<Rightarrow> nat" where
  "pendingAbove h s =
     length (filter (\<lambda>x. s < x \<and> alreadyRequested h x) (metaData h @ map fst (metaState h)))"

lemma alreadyRequested_listed:
  "alreadyRequested h x \<Longrightarrow> x \<in> set (metaData h @ map fst (metaState h))"
  by (auto simp: alreadyRequested_def metaStateOf_def split: option.splits
      dest!: map_of_SomeD intro: image_eqI[where x="(x, _)"])

lemma length_filter_drop:
  "x \<in> set xs \<Longrightarrow> P x \<Longrightarrow> \<not> Q x \<Longrightarrow> (\<And>y. Q y \<Longrightarrow> P y) \<Longrightarrow>
   length (filter Q xs) < length (filter P xs)"
proof (induction xs)
  case Nil
  then show ?case by simp
next
  case (Cons a xs)
  have le: "length (filter Q xs) \<le> length (filter P xs)"
    using Cons.prems(4) by (induction xs) auto
  show ?case
  proof (cases "a = x")
    case True
    then show ?thesis using Cons.prems(2,3) le by simp
  next
    case False
    then have "x \<in> set xs" using Cons.prems(1) by simp
    then have "length (filter Q xs) < length (filter P xs)"
      using Cons.IH Cons.prems(2,3,4) by blast
    then show ?thesis using Cons.prems(4)[of a] by auto
  qed
qed

lemma pendingAbove_step:
  "alreadyRequested h (s + 1) \<Longrightarrow> pendingAbove h (s + 1) < pendingAbove h s"
  unfolding pendingAbove_def
  by (rule length_filter_drop[where x="s + 1"]) (auto dest: alreadyRequested_listed)

lemma pipelineSize_requestOne: "pipelineSize (requestOne h s) = pipelineSize h"
  by (simp add: requestOne_def objectNeededMeta_def Let_def)

function requestLoop :: "handler \<Rightarrow> int \<Rightarrow> int \<Rightarrow> handler" where
  "requestLoop h nOutstandingSequenceNumbers sequenceNumber =
     (if nOutstandingSequenceNumbers < pipelineSize h then
        if alreadyRequested h (sequenceNumber + 1) then
          requestLoop h nOutstandingSequenceNumbers (sequenceNumber + 1)
        else
          requestLoop (requestOne h (sequenceNumber + 1)) (nOutstandingSequenceNumbers + 1)
            (sequenceNumber + 1)
      else h)"
  by pat_completeness auto
termination
  by (relation "measures [\<lambda>(h, n, s). nat (pipelineSize h - n), \<lambda>(h, n, s). pendingAbove h s]")
     (auto simp: pendingAbove_step pipelineSize_requestOne)

declare requestLoop.simps [simp del]

definition requestNewSequenceNumbers :: "handler \<Rightarrow> handler" where
  "requestNewSequenceNumbers h =
     requestLoop h (nRequestedSequenceNumbers h - nReportedSequenceNumbers h)
       (maxReportedSequenceNumber h)"

text \<open>
  The closure that _makeOnGeneralizedObject(sequenceNumber) returns, called when the object
  of that sequence number is complete. The callback of the application is recorded; an
  exception it raises is caught and logged by the source.
\<close>

definition onGeneralizedObject :: "handler \<Rightarrow> int \<Rightarrow> handler" where
  "onGeneralizedObject h sequenceNumber =
     (let h0 = (if onSequencedGeneralizedObject h
                then h\<lparr>actions := actions h @ [OnSequencedGeneralizedObject sequenceNumber]\<rparr>
                else h);
          h1 = h0\<lparr>nReportedSequenceNumbers := nReportedSequenceNumbers h0 + 1\<rparr>;
          h2 = (if sequenceNumber > maxReportedSequenceNumber h1
                then h1\<lparr>maxReportedSequenceNumber := sequenceNumber\<rparr> else h1)
      in if pipelineSize h2 > 0 then requestNewSequenceNumbers h2 else h2)"

text \<open>The constructor, attached to no tree yet or to a tree with no Face and no fetched node.\<close>

definition GeneralizedObjectStreamHandler ::
  "component name option \<Rightarrow> int \<Rightarrow> bool \<Rightarrow> handler" where
  "GeneralizedObjectStreamHandler ns newSize callback =
     \<lparr>namespace = ns,
      pipelineSize = (if newSize < 0 then 0 else newSize),
      onSequencedGeneralizedObject = callback,
      producedSequenceNumber = -1,
      latestPacketFreshnessPeriod = Some 1000,
      nRequestedSequenceNumbers = 0,
      maxRequestedSequenceNumber = -1,
      nReportedSequenceNumbers = 0,
      maxReportedSequenceNumber = -1,
      hasFace = False, objects = [], metaData = [], metaState = [], actions = []\<rparr>"

definition getProducedSequenceNumber :: "handler \<Rightarrow> int" where
  "getProducedSequenceNumber h = producedSequenceNumber h"

text \<open>
  setObject and addObject. collaborators is the outcome of the calls that follow the
  assignment (the sequence-number component, the child node, setObject of the
  GeneralizedObjectHandler): None when they return, Some e when one raises e.
\<close>

definition setObject :: "handler \<Rightarrow> int \<Rightarrow> error option \<Rightarrow> handler \<times> error option" where
  "setObject h sequenceNumber collaborators =
     (if namespace h = None then (h, Some RuntimeError)
      else
        let h1 = h\<lparr>producedSequenceNumber := sequenceNumber\<rparr> in
        case collaborators of
          Some e \<Rightarrow> (h1, Some e)
        | None \<Rightarrow>
            (h1\<lparr>actions := actions h1 @ [SetGeneralizedObject (producedSequenceNumber h1)]\<rparr>,
             None))"

definition addObject :: "handler \<Rightarrow> error option \<Rightarrow> handler \<times> error option" where
  "addObject h collaborators = setObject h (getProducedSequenceNumber h + 1) collaborators"

definition addObjects :: "handler \<Rightarrow> error option list \<Rightarrow> handler" where
  "addObjects h cs = fold (\<lambda>c h'. fst (addObject h' c)) cs h"

definition setPipelineSize :: "handler \<Rightarrow> int \<Rightarrow> handler \<times> error option" where
  "setPipelineSize h newSize =
     (let newSize = (if newSize < 0 then 0 else newSize) in
      if newSize = 0 \<and> pipelineSize h > 0 then (h, Some RuntimeError)
      else if newSize > 0 \<and> pipelineSize h = 0 then (h, Some RuntimeError)
      else (h\<lparr>pipelineSize := newSize\<rparr>, None))"

text \<open>
  What _onStateChanged reads of changedNamespace: its name, its obj as
  DelegationSet.wireDecode gives it (the target names in order; None when decoding raises),
  and the freshness period of its Data packet.
\<close>

record changed =
  changedName :: "component name"
  changedObj :: "component name list option"
  changedFreshnessPeriod :: "real option"

text \<open>self._latestNamespace._getFace().callLater(delay, ...): _getFace() is None without a Face.\<close>

definition callLaterLatest :: "handler \<Rightarrow> real option \<Rightarrow> handler \<times> error option" where
  "callLaterLatest h delay =
     (if hasFace h then (h\<lparr>actions := actions h @ [CallLater delay]\<rparr>, None)
      else (h, Some AttributeError))"

text \<open>
  Modelled from the spec: Namespace.objectNeeded is not defined in namespace.py; the pull of
  the _latest node is recorded.
\<close>

definition objectNeededLatest :: "handler \<Rightarrow> handler" where
  "objectNeededLatest h = h\<lparr>actions := actions h @ [ObjectNeededLatest]\<rparr>"

text \<open>The part of _onStateChanged under "if targetNamespace.obj == None".\<close>

definition fetchTarget :: "handler \<Rightarrow> int \<Rightarrow> handler" where
  "fetchTarget h sequenceNumber =
     (if sequenceNumber \<in> set (objects h) then h
      else if pipelineSize h = 0 then
        (if metaStateOf h sequenceNumber < stateValue INTEREST_EXPRESSED then
           objectNeededMeta
             (h\<lparr>actions := actions h @ [NewGeneralizedObjectHandler sequenceNumber]\<rparr>)
             sequenceNumber
         else h)
      else
        requestNewSequenceNumbers
          (h\<lparr>maxReportedSequenceNumber := sequenceNumber - 1,
             nRequestedSequenceNumbers := nReportedSequenceNumbers h\<rparr>))"

text \<open>_onStateChanged from the decoding of the _latest packet on.\<close>

definition resolveLatest ::
  "handler \<Rightarrow> component name \<Rightarrow> changed \<Rightarrow> handler \<times> error option" where
  "resolveLatest h nsName changedNamespace =
     (case changedObj changedNamespace of
        None \<Rightarrow> (h, Some ValueError)
      | Some [] \<Rightarrow> (h, None)
      | Some (targetName # others) \<Rightarrow>
          if \<not> (prefix nsName targetName \<and> length targetName = length nsName + 1 \<and>
                  isSequenceNumber (last targetName))
          then (h, None)
          else
            let h1 = fetchTarget h (toSequenceNumber (last targetName)) in
            if pipelineSize h1 = 0 then
              (case changedFreshnessPeriod changedNamespace of
                 None \<Rightarrow> (h1, None)
               | Some freshnessPeriod \<Rightarrow>
                   if freshnessPeriod < 0 then (h1, None)
                   else callLaterLatest h1 (Some (freshnessPeriod / 2)))
            else (h1, None))"

text \<open>
  _onStateChanged. The states INTEREST_NETWORK_NACK and OBJECT_READY are not in the class
  NamespaceState of namespace.py, so their integers are parameters. Two nodes of one
  tree are the same node when their names are equal.
\<close>

definition onStateChanged ::
  "nat \<Rightarrow> nat \<Rightarrow> handler \<Rightarrow> changed \<Rightarrow> nat \<Rightarrow> handler \<times> error option" where
  "onStateChanged INTEREST_NETWORK_NACK OBJECT_READY h changedNamespace st =
     (let timeoutOrNack =
            (st = stateValue INTEREST_TIMEOUT \<or> st = INTEREST_NETWORK_NACK);
          cn = changedName changedNamespace
      in case namespace h of
        None \<Rightarrow>
          if (timeoutOrNack \<and> pipelineSize h > 0) \<or> st = OBJECT_READY
          then (h, Some AttributeError) else (h, None)
      | Some nsName \<Rightarrow>
          let latestName = nsName @ [NAME_COMPONENT_LATEST] in
          if timeoutOrNack \<and> cn = latestName then
            callLaterLatest h (latestPacketFreshnessPeriod h)
          else if timeoutOrNack \<and> pipelineSize h > 0 \<and>
                  length cn = length nsName + 2 \<and>
                  last cn = NAME_COMPONENT_META \<and>
                  isSequenceNumber (last (butlast cn)) \<and>
                  toSequenceNumber (last (butlast cn)) = maxRequestedSequenceNumber h then
            (objectNeededLatest h, None)
          else if \<not> (st = OBJECT_READY \<and> length cn = length latestName + 1 \<and>
                       prefix latestName cn \<and> isVersion (last cn)) then
            (h, None)
          else resolveLatest h nsName changedNamespace)"

text \<open>
  Claim C6. setPipelineSize raises and leaves the handler unchanged when the pipeline size
  is positive and the new size is zero (or negative, which is taken as zero), and when the
  pipeline size is zero and the new size is positive; when both are positive, or both
  zero, the new size is stored. The constructor never makes a negative pipeline size.
\<close>

theorem setPipelineSize_sign:
  "(0 < pipelineSize h \<and> n \<le> 0 \<longrightarrow> setPipelineSize h n = (h, Some RuntimeError)) \<and>
   (pipelineSize h = 0 \<and> 0 < n \<longrightarrow> setPipelineSize h n = (h, Some RuntimeError)) \<and>
   (0 < pipelineSize h \<and> 0 < n \<longrightarrow> setPipelineSize h n = (h\<lparr>pipelineSize := n\<rparr>, None)) \<and>
   (pipelineSize h = 0 \<and> n \<le> 0 \<longrightarrow> setPipelineSize h n = (h\<lparr>pipelineSize := 0\<rparr>, None)) \<and>
   0 \<le> pipelineSize (GeneralizedObjectStreamHandler ns n cb)"
  by (auto simp: setPipelineSize_def GeneralizedObjectStreamHandler_def Let_def)

lemma produced_addObject:
  "getProducedSequenceNumber h \<le> getProducedSequenceNumber (fst (addObject h c))"
  by (simp add: addObject_def setObject_def getProducedSequenceNumber_def Let_def
      split: option.splits)

lemma produced_addObjects:
  "getProducedSequenceNumber h \<le> getProducedSequenceNumber (addObjects h cs)"
proof (induction cs arbitrary: h)
  case Nil
  then show ?case by (simp add: addObjects_def)
next
  case (Cons c cs)
  have "getProducedSequenceNumber h \<le> getProducedSequenceNumber (fst (addObject h c))"
    by (rule produced_addObject)
  also have "\<dots> \<le> getProducedSequenceNumber (addObjects (fst (addObject h c)) cs)"
    by (rule Cons.IH)
  finally show ?case by (simp add: addObjects_def)
qed

text \<open>
  Claim C7, amended. getProducedSequenceNumber is -1 after the constructor; addObject on a
  handler with a Namespace publishes at the previous produced sequence number plus one, and
  raises with the handler unchanged when no Namespace is set; over every sequence of
  addObject calls the produced sequence number never decreases; and setObject sets it to
  the sequence number it is given, whatever the previous one.
\<close>

theorem addObject_increases:
  "getProducedSequenceNumber (GeneralizedObjectStreamHandler ns n cb) = -1 \<and>
   (namespace h = None \<longrightarrow> addObject h c = (h, Some RuntimeError)) \<and>
   (namespace h \<noteq> None \<longrightarrow>
      getProducedSequenceNumber (fst (addObject h c)) = getProducedSequenceNumber h + 1 \<and>
      (c = None \<longrightarrow> actions (fst (addObject h c)) =
         actions h @ [SetGeneralizedObject (getProducedSequenceNumber h + 1)])) \<and>
   getProducedSequenceNumber h \<le> getProducedSequenceNumber (addObjects h cs) \<and>
   (namespace h \<noteq> None \<longrightarrow> getProducedSequenceNumber (fst (setObject h m c)) = m)"
proof -
  have "getProducedSequenceNumber (GeneralizedObjectStreamHandler ns n cb) = -1"
    by (simp add: getProducedSequenceNumber_def GeneralizedObjectStreamHandler_def)
  moreover have "namespace h = None \<longrightarrow> addObject h c = (h, Some RuntimeError)"
    by (simp add: addObject_def setObject_def)
  moreover have "namespace h \<noteq> None \<longrightarrow>
      getProducedSequenceNumber (fst (addObject h c)) = getProducedSequenceNumber h + 1 \<and>
      (c = None \<longrightarrow> actions (fst (addObject h c)) =
         actions h @ [SetGeneralizedObject (getProducedSequenceNumber h + 1)])"
    by (auto simp: addObject_def setObject_def getProducedSequenceNumber_def Let_def
        split: option.splits)
  moreover have "namespace h \<noteq> None \<longrightarrow> getProducedSequenceNumber (fst (setObject h m c)) = m"
    by (auto simp: setObject_def getProducedSequenceNumber_def Let_def split: option.splits)
  ultimately show ?thesis using produced_addObjects by blast
qed

definition producer :: handler where
  "producer = GeneralizedObjectStreamHandler (Some [Generic ''stream'']) 8 False"

text \<open>
  Claim C7 as stated fails: setObject with sequence number 5 and then with 3 lowers the
  value of getProducedSequenceNumber.
\<close>

theorem setObject_decreases:
  "getProducedSequenceNumber (fst (setObject (fst (setObject producer 5 None)) 3 None))
     < getProducedSequenceNumber (fst (setObject producer 5 None))"
  by (simp add: setObject_def getProducedSequenceNumber_def producer_def
      GeneralizedObjectStreamHandler_def Let_def)

text \<open>The completion callbacks for the sequence numbers cs, in the order of the list.\<close>

definition completions :: "handler \<Rightarrow> int list \<Rightarrow> handler" where
  "completions h cs = fold (\<lambda>c h'. onGeneralizedObject h' c) cs h"

lemma requestOne_fields:
  "nReportedSequenceNumbers (requestOne h s) = nReportedSequenceNumbers h"
  "maxReportedSequenceNumber (requestOne h s) = maxReportedSequenceNumber h"
  "nRequestedSequenceNumbers (requestOne h s) = nRequestedSequenceNumbers h + 1"
  by (simp_all add: requestOne_def objectNeededMeta_def Let_def)

lemma requestLoop_reported:
  "nReportedSequenceNumbers (requestLoop h n s) = nReportedSequenceNumbers h \<and>
   maxReportedSequenceNumber (requestLoop h n s) = maxReportedSequenceNumber h \<and>
   pipelineSize (requestLoop h n s) = pipelineSize h"
proof (induction h n s rule: requestLoop.induct)
  case (1 h n s)
  show ?case
    using "1.IH"
    by (subst (1 2 3) requestLoop.simps)
       (simp add: requestOne_fields pipelineSize_requestOne)
qed

lemma requestLoop_requested:
  "nRequestedSequenceNumbers (requestLoop h n s) =
     nRequestedSequenceNumbers h + max 0 (pipelineSize h - n)"
proof (induction h n s rule: requestLoop.induct)
  case (1 h n s)
  show ?case
    using "1.IH"
    by (subst requestLoop.simps)
       (auto simp: requestOne_fields pipelineSize_requestOne)
qed

lemma onGeneralizedObject_reported:
  "nReportedSequenceNumbers (onGeneralizedObject h c) = nReportedSequenceNumbers h + 1"
  "maxReportedSequenceNumber (onGeneralizedObject h c) = max c (maxReportedSequenceNumber h)"
  by (auto simp: onGeneralizedObject_def requestNewSequenceNumbers_def Let_def
      requestLoop_reported)

lemma onGeneralizedObject_refills:
  "0 < pipelineSize h \<Longrightarrow>
   pipelineSize h \<le> nRequestedSequenceNumbers (onGeneralizedObject h c) -
     nReportedSequenceNumbers (onGeneralizedObject h c)"
  by (auto simp: onGeneralizedObject_def requestNewSequenceNumbers_def Let_def
      requestLoop_reported requestLoop_requested)

lemma completions_reported:
  "nReportedSequenceNumbers (completions h cs) = nReportedSequenceNumbers h + int (length cs) \<and>
   maxReportedSequenceNumber (completions h cs) = Max (insert (maxReportedSequenceNumber h) (set cs))"
proof (induction cs arbitrary: h)
  case Nil
  then show ?case by (simp add: completions_def)
next
  case (Cons c cs)
  have step: "completions h (c # cs) = completions (onGeneralizedObject h c) cs"
    by (simp add: completions_def)
  have "Max (insert (max c (maxReportedSequenceNumber h)) (set cs)) =
      Max (insert (maxReportedSequenceNumber h) (set (c # cs)))"
  proof -
    have "insert (maxReportedSequenceNumber h) (set (c # cs)) =
        insert c (insert (maxReportedSequenceNumber h) (set cs))" by auto
    then have "Max (insert (maxReportedSequenceNumber h) (set (c # cs))) =
        max c (Max (insert (maxReportedSequenceNumber h) (set cs)))"
      by (simp del: Max_insert add: Max_insert[of "insert (maxReportedSequenceNumber h) (set cs)" c])
    also have "\<dots> = Max (insert (max c (maxReportedSequenceNumber h)) (set cs))"
      by (cases "set cs = {}") (auto simp: max.assoc)
    finally show ?thesis by simp
  qed
  then show ?case using Cons.IH[of "onGeneralizedObject h c"] step
    by (simp add: onGeneralizedObject_reported)
qed

text \<open>
  A handler with pipelineSize 3 after a _latest packet with target 5: it has requested
  5, 6 and 7.
\<close>

definition pipelined567 :: handler where
  "pipelined567 =
     fetchTarget (GeneralizedObjectStreamHandler (Some [Generic ''stream'']) 3 False) 5"

lemma pipelined567_value:
  "pipelined567 =
     \<lparr>namespace = Some [Generic ''stream''], pipelineSize = 3,
      onSequencedGeneralizedObject = False, producedSequenceNumber = -1,
      latestPacketFreshnessPeriod = Some 1000,
      nRequestedSequenceNumbers = 3, maxRequestedSequenceNumber = 7,
      nReportedSequenceNumbers = 0, maxReportedSequenceNumber = 4,
      hasFace = False, objects = [], metaData = [],
      metaState = [(5, 1), (6, 1), (7, 1)],
      actions = [NewGeneralizedObjectHandler 5, ObjectNeededMeta 5,
                 NewGeneralizedObjectHandler 6, ObjectNeededMeta 6,
                 NewGeneralizedObjectHandler 7, ObjectNeededMeta 7]\<rparr>"
  by (simp add: pipelined567_def fetchTarget_def GeneralizedObjectStreamHandler_def
      requestNewSequenceNumbers_def requestLoop.simps requestOne_def objectNeededMeta_def
      alreadyRequested_def metaStateOf_def Let_def)

lemma completions_67:
  "completions pipelined567 [6, 7] =
     pipelined567\<lparr>nRequestedSequenceNumbers := 5, maxRequestedSequenceNumber := 9,
       nReportedSequenceNumbers := 2, maxReportedSequenceNumber := 7,
       metaState := [(5, 1), (6, 1), (7, 1), (8, 1), (9, 1)],
       actions := actions pipelined567 @
         [NewGeneralizedObjectHandler 8, ObjectNeededMeta 8,
          NewGeneralizedObjectHandler 9, ObjectNeededMeta 9]\<rparr>"
  by (simp add: pipelined567_value completions_def onGeneralizedObject_def
      requestNewSequenceNumbers_def requestLoop.simps requestOne_def objectNeededMeta_def
      alreadyRequested_def metaStateOf_def Let_def)

lemma completions_76:
  "completions pipelined567 [7, 6] = completions pipelined567 [6, 7]"
  unfolding completions_67
  by (simp add: pipelined567_value completions_def onGeneralizedObject_def
      requestNewSequenceNumbers_def requestLoop.simps requestOne_def objectNeededMeta_def
      alreadyRequested_def metaStateOf_def Let_def)

text \<open>
  Claim C2 as stated fails: after the completions of 6 and 7 the outstanding count is not
  1, because each completion refills the pipeline.
\<close>

theorem outstanding_after_6_7:
  "nRequestedSequenceNumbers (completions pipelined567 [6, 7]) -
     nReportedSequenceNumbers (completions pipelined567 [6, 7]) \<noteq> 1"
  by (simp add: completions_67)

text \<open>
  Claim C2, amended. With pipelineSize 3 and 5, 6, 7 requested, after the completions of 6
  and 7 in either order _maxReportedSequenceNumber is 7 and the outstanding count is 3, the
  pipeline size (each completion requests the next sequence number: 5, 8 and 9 are in
  flight). For every handler, _nReportedSequenceNumbers and _maxReportedSequenceNumber
  after a list of completions are the same for every order of the list: the count grows
  by the number of completions and the maximum is the largest of the old maximum and the
  completed sequence numbers. With a positive pipeline size, after a completion the
  outstanding count is at least the pipeline size.
\<close>

theorem pipeline_accounting:
  "maxReportedSequenceNumber (completions pipelined567 [6, 7]) = 7 \<and>
   maxReportedSequenceNumber (completions pipelined567 [7, 6]) = 7 \<and>
   nRequestedSequenceNumbers (completions pipelined567 [6, 7]) -
     nReportedSequenceNumbers (completions pipelined567 [6, 7]) = 3 \<and>
   nRequestedSequenceNumbers (completions pipelined567 [7, 6]) -
     nReportedSequenceNumbers (completions pipelined567 [7, 6]) = 3 \<and>
   (mset cs = mset cs' \<longrightarrow>
      nReportedSequenceNumbers (completions h cs) = nReportedSequenceNumbers (completions h cs') \<and>
      maxReportedSequenceNumber (completions h cs) = maxReportedSequenceNumber (completions h cs')) \<and>
   nReportedSequenceNumbers (completions h cs) = nReportedSequenceNumbers h + int (length cs) \<and>
   maxReportedSequenceNumber (completions h cs) =
     Max (insert (maxReportedSequenceNumber h) (set cs)) \<and>
   (0 < pipelineSize h \<longrightarrow>
      pipelineSize h \<le> nRequestedSequenceNumbers (onGeneralizedObject h c) -
        nReportedSequenceNumbers (onGeneralizedObject h c))"
proof -
  have conc: "maxReportedSequenceNumber (completions pipelined567 [6, 7]) = 7"
    "nRequestedSequenceNumbers (completions pipelined567 [6, 7]) -
       nReportedSequenceNumbers (completions pipelined567 [6, 7]) = 3"
    by (simp_all add: completions_67)
  have perm: "mset cs = mset cs' \<longrightarrow>
      nReportedSequenceNumbers (completions h cs) = nReportedSequenceNumbers (completions h cs') \<and>
      maxReportedSequenceNumber (completions h cs) = maxReportedSequenceNumber (completions h cs')"
  proof
    assume m: "mset cs = mset cs'"
    then have "length cs = length cs'" "set cs = set cs'"
      by (auto dest: mset_eq_length mset_eq_setD)
    then show "nReportedSequenceNumbers (completions h cs) =
        nReportedSequenceNumbers (completions h cs') \<and>
      maxReportedSequenceNumber (completions h cs) = maxReportedSequenceNumber (completions h cs')"
      by (simp add: completions_reported)
  qed
  show ?thesis
    using conc perm completions_reported[of h cs] onGeneralizedObject_refills[of h c]
    by (simp add: completions_76)
qed

theorem pipeline_accounting_witness:
  "mset [6, 7] = mset [7, 6::int] \<and>
   maxReportedSequenceNumber (completions pipelined567 [6, 7]) =
     maxReportedSequenceNumber (completions pipelined567 [7, 6]) \<and>
   0 < pipelineSize pipelined567 \<and>
   pipelineSize pipelined567 \<le> nRequestedSequenceNumbers (onGeneralizedObject pipelined567 6) -
        nReportedSequenceNumbers (onGeneralizedObject pipelined567 6)"
proof -
  have m: "mset [6, 7] = mset [7, 6::int]" by simp
  have p: "0 < pipelineSize pipelined567" by (simp add: pipelined567_value)
  note th = pipeline_accounting[of "[6, 7]" "[7, 6]" pipelined567 6]
  have a: "maxReportedSequenceNumber (completions pipelined567 [6, 7]) =
     maxReportedSequenceNumber (completions pipelined567 [7, 6])"
    using th m by blast
  have b: "pipelineSize pipelined567 \<le>
      nRequestedSequenceNumbers (onGeneralizedObject pipelined567 6) -
        nReportedSequenceNumbers (onGeneralizedObject pipelined567 6)"
    using th p by blast
  show ?thesis using m p a b by blast
qed

text \<open>
  Claim C8. With a Namespace and a Face set, a timeout or a negative acknowledgement on the
  _latest node makes the handler do one thing: schedule the pull of _latest on the Face
  after _latestPacketFreshnessPeriod. No pull is made in the event itself, no field
  changes, and no exception is raised.
\<close>

theorem latest_timeout_deferred:
  assumes "namespace h = Some ns" and "hasFace h"
    and "st = stateValue INTEREST_TIMEOUT \<or> st = INTEREST_NETWORK_NACK"
    and "changedName c = ns @ [NAME_COMPONENT_LATEST]"
  shows "onStateChanged INTEREST_NETWORK_NACK OBJECT_READY h c st =
     (h\<lparr>actions := actions h @ [CallLater (latestPacketFreshnessPeriod h)]\<rparr>, None)"
  using assms by (auto simp: onStateChanged_def callLaterLatest_def Let_def)

text \<open>
  Claim C9. For a versioned _latest packet in state OBJECT_READY whose obj decodes to a
  DelegationSet that is empty, or whose first name is not a sequence-numbered child of the
  handler's Namespace, _onStateChanged returns with the handler as it was: no call to a
  collaborator, no change of a bookkeeping field, no exception.
\<close>

theorem bad_redirect_ignored:
  assumes "namespace h = Some ns" and "st = OBJECT_READY"
    and "changedName c = ns @ [NAME_COMPONENT_LATEST, Version v]"
    and "changedObj c = Some ds"
    and "ds = [] \<or> \<not> (prefix ns (hd ds) \<and> length (hd ds) = length ns + 1 \<and>
            isSequenceNumber (last (hd ds)))"
  shows "onStateChanged INTEREST_NETWORK_NACK OBJECT_READY h c st = (h, None)"
proof -
  have notmeta: "Version v \<noteq> NAME_COMPONENT_META" by (simp add: NAME_COMPONENT_META_def)
  have r: "resolveLatest h ns c = (h, None)"
    using assms(4,5) by (cases ds) (auto simp: resolveLatest_def)
  show ?thesis
    using assms(1,2,3) notmeta r
    by (auto simp: onStateChanged_def Let_def)
qed

theorem setPipelineSize_sign_witness:
  "0 < pipelineSize producer \<and> setPipelineSize producer 0 = (producer, Some RuntimeError) \<and>
   setPipelineSize producer 4 = (producer\<lparr>pipelineSize := 4\<rparr>, None)"
proof -
  have p: "0 < pipelineSize producer"
    by (simp add: producer_def GeneralizedObjectStreamHandler_def)
  note th = setPipelineSize_sign[of producer]
  have a: "setPipelineSize producer 0 = (producer, Some RuntimeError)"
    using th[of 0] p by simp
  have b: "setPipelineSize producer 4 = (producer\<lparr>pipelineSize := 4\<rparr>, None)"
    using th[of 4] p by simp
  show ?thesis using p a b by blast
qed

theorem addObject_increases_witness:
  "namespace producer \<noteq> None \<and>
   getProducedSequenceNumber (fst (addObject producer None)) = 0 \<and>
   actions (fst (addObject producer None)) = [SetGeneralizedObject 0]"
proof -
  have n: "namespace producer \<noteq> None"
    by (simp add: producer_def GeneralizedObjectStreamHandler_def)
  have g: "getProducedSequenceNumber producer = -1" "actions producer = []"
    by (simp_all add: producer_def GeneralizedObjectStreamHandler_def
        getProducedSequenceNumber_def)
  note th = addObject_increases[of _ _ _ producer None "[]" 0]
  have a: "getProducedSequenceNumber (fst (addObject producer None)) =
      getProducedSequenceNumber producer + 1"
    using th n by blast
  have b: "actions (fst (addObject producer None)) =
      actions producer @ [SetGeneralizedObject (getProducedSequenceNumber producer + 1)]"
    using th n by blast
  show ?thesis using n a b g by simp
qed

definition consumer :: handler where
  "consumer = (GeneralizedObjectStreamHandler (Some [Generic ''stream'']) 8 False)\<lparr>hasFace := True\<rparr>"

definition latestTimedOut :: changed where
  "latestTimedOut =
     \<lparr>changedName = [Generic ''stream'', NAME_COMPONENT_LATEST], changedObj = None,
      changedFreshnessPeriod = None\<rparr>"

theorem latest_timeout_deferred_witness:
  "namespace consumer = Some [Generic ''stream''] \<and> hasFace consumer \<and>
   actions (fst (onStateChanged 3 14 consumer latestTimedOut 2)) = [CallLater (Some 1000)] \<and>
   snd (onStateChanged 3 14 consumer latestTimedOut 2) = None"
proof -
  have n: "namespace consumer = Some [Generic ''stream'']" and f: "hasFace consumer"
    by (simp_all add: consumer_def GeneralizedObjectStreamHandler_def)
  have s: "(2::nat) = stateValue INTEREST_TIMEOUT \<or> (2::nat) = 3" by simp
  have c: "changedName latestTimedOut = [Generic ''stream''] @ [NAME_COMPONENT_LATEST]"
    by (simp add: latestTimedOut_def)
  note th = latest_timeout_deferred[OF n f s c, of 14]
  have v: "actions consumer = []" "latestPacketFreshnessPeriod consumer = Some 1000"
    by (simp_all add: consumer_def GeneralizedObjectStreamHandler_def)
  show ?thesis using n f th v by simp
qed

definition emptyRedirect :: changed where
  "emptyRedirect =
     \<lparr>changedName = [Generic ''stream'', NAME_COMPONENT_LATEST, Version 1],
      changedObj = Some [], changedFreshnessPeriod = Some 1000\<rparr>"

definition foreignRedirect :: changed where
  "foreignRedirect =
     \<lparr>changedName = [Generic ''stream'', NAME_COMPONENT_LATEST, Version 1],
      changedObj = Some [[Generic ''other'', SequenceNumber 5]],
      changedFreshnessPeriod = Some 1000\<rparr>"

theorem bad_redirect_ignored_witness:
  "namespace consumer = Some [Generic ''stream''] \<and>
   onStateChanged 3 14 consumer emptyRedirect 14 = (consumer, None) \<and>
   onStateChanged 3 14 consumer foreignRedirect 14 = (consumer, None)"
proof -
  have n: "namespace consumer = Some [Generic ''stream'']"
    by (simp add: consumer_def GeneralizedObjectStreamHandler_def)
  have c1: "changedName emptyRedirect = [Generic ''stream''] @ [NAME_COMPONENT_LATEST, Version 1]"
    and o1: "changedObj emptyRedirect = Some []"
    by (simp_all add: emptyRedirect_def)
  have c2: "changedName foreignRedirect = [Generic ''stream''] @ [NAME_COMPONENT_LATEST, Version 1]"
    and o2: "changedObj foreignRedirect = Some [[Generic ''other'', SequenceNumber 5]]"
    by (simp_all add: foreignRedirect_def)
  have b1: "[] = [] \<or> \<not> (prefix [Generic ''stream''] (hd []) \<and>
      length (hd ([] :: component name list)) = length [Generic ''stream''] + 1 \<and>
      isSequenceNumber (last (hd [])))" by simp
  have b2: "[[Generic ''other'', SequenceNumber 5]] = [] \<or>
      \<not> (prefix [Generic ''stream''] (hd [[Generic ''other'', SequenceNumber 5]]) \<and>
      length (hd [[Generic ''other'', SequenceNumber 5]]) = length [Generic ''stream''] + 1 \<and>
      isSequenceNumber (last (hd [[Generic ''other'', SequenceNumber 5]])))" by simp
  note th1 = bad_redirect_ignored[OF n refl c1 o1 b1, of 3]
  note th2 = bad_redirect_ignored[OF n refl c2 o2 b2, of 3]
  show ?thesis using n th1 th2 by simp
qed

end
